theory Spec2Isabelle
  imports Main
begin

section \<open>clapp: the argument parser of include/clapp.hpp (version 1.1.0)\<close>

text \<open>
  The development embeds \<^verbatim>\<open>clapp::ArgumentParser\<close> of \<^verbatim>\<open>include/clapp.hpp\<close>.
  Mutation is explicit state passing on the record \<open>ArgumentParser\<close>; an exception is
  the \<open>Inl\<close> component of a result \<open>(error + 'a) \<times> state\<close>, the state being what the
  objects hold at the moment of the throw (the parser and the caller's storage survive
  an exception that the caller catches).  What a callback or \<^verbatim>\<open>printHelp\<close> does is
  recorded as an \<open>event\<close>; the text of the help message is not modelled.
  \<^verbatim>\<open>m_curr_arg\<close> is a \<^verbatim>\<open>uint32_t\<close> in the source; it never exceeds the length of
  \<^verbatim>\<open>m_argv\<close> by more than one, so it is a \<open>nat\<close> here (argument vectors of
  \<open>2^32\<close> entries are outside the model).
\<close>

subsection \<open>Values, errors, events\<close>

datatype val = StrV string | BoolV bool | IntV int

datatype error =
    RuntimeError string               \<comment> \<open>\<^verbatim>\<open>std::runtime_error\<close>\<close>
  | ArgumentParserException string    \<comment> \<open>\<^verbatim>\<open>ArgumentParser::ArgumentParserException\<close>\<close>
  | OutOfRange                        \<comment> \<open>\<^verbatim>\<open>std::out_of_range\<close> of \<^verbatim>\<open>vector::at\<close>\<close>
  | ConversionError string            \<comment> \<open>whatever a \<^verbatim>\<open>TypeParser<T>::Get\<close> throws\<close>
  | InvalidChoiceError string         \<comment> \<open>only raised by the spec-modelled \<open>choices\<close> below\<close>

datatype event =
    PrintHelp                         \<comment> \<open>\<^verbatim>\<open>printHelp()\<close> wrote the help message\<close>
  | Callback nat "val option"         \<comment> \<open>\<^verbatim>\<open>m_callback(m_value)\<close> of the option with that index\<close>

subsection \<open>Type conversions\<close>

text \<open>\<^verbatim>\<open>TypeParser<std::string>::Get\<close> is the primary template: \<^verbatim>\<open>return T{value}\<close>.\<close>

definition TypeParser_string_Get :: "string \<Rightarrow> string" where
  "TypeParser_string_Get value = value"

definition TypeParser_bool_Get :: "string \<Rightarrow> bool" where
  "TypeParser_bool_Get value = (value = [] \<or> value = ''1'' \<or> value = ''true'')"

text \<open>
  The template argument \<open>T\<close> of \<^verbatim>\<open>option<T>\<close>: its converter and the value a
  default-initialised \<^verbatim>\<open>T m_value\<close> holds (\<open>None\<close> for a scalar, which is indeterminate
  until first written).  The numeric converters call \<^verbatim>\<open>std::stoi\<close>, \<^verbatim>\<open>std::stod\<close>,
  \<^verbatim>\<open>std::stof\<close> of the standard library; any converter fits the field \<open>conv\<close>.
\<close>

record tparam =
  conv :: "string \<Rightarrow> error + val"
  init :: "val option"

definition string_T :: tparam where
  "string_T = \<lparr>conv = (\<lambda>s. Inr (StrV (TypeParser_string_Get s))), init = Some (StrV [])\<rparr>"

definition bool_T :: tparam where
  "bool_T = \<lparr>conv = (\<lambda>s. Inr (BoolV (TypeParser_bool_Get s))), init = None\<rparr>"

subsection \<open>Option and OptionWrapper\<close>

text \<open>
  \<^verbatim>\<open>struct Option\<close> together with its only subclass \<^verbatim>\<open>OptionWrapper<T>\<close>.  The field
  \<^verbatim>\<open>set\<close> is \<open>set_opt\<close> here; \<open>Get\<close> is \<^verbatim>\<open>TypeParser<T>::Get\<close>; \<open>m_ref\<close> is
  the address of the caller's variable in \<open>storage\<close>.
\<close>

record OptionWrapper =
  argument_name :: string
  short_option :: string
  long_option :: string
  description :: string
  required :: bool
  set_opt :: bool
  flag :: bool
  overruling :: bool
  has_default_value :: bool
  Get :: "string \<Rightarrow> error + val"
  m_value :: "val option"
  m_ref :: "nat option"

definition OptionWrapper_new :: "tparam \<Rightarrow> string \<Rightarrow> string \<Rightarrow> OptionWrapper" where
  "OptionWrapper_new T short long =
     \<lparr>argument_name = [], short_option = short, long_option = long, description = [],
      required = False, set_opt = False, flag = False, overruling = False,
      has_default_value = False, Get = conv T, m_value = init T, m_ref = None\<rparr>"

definition name :: "OptionWrapper \<Rightarrow> string" where
  "name opt = short_option opt @
     (if long_option opt \<noteq> [] then '' ('' @ long_option opt @ '')'' else [])"

definition argument :: "string \<Rightarrow> OptionWrapper \<Rightarrow> OptionWrapper" where
  "argument n opt = opt\<lparr>argument_name := n\<rparr>"

definition description_set :: "string \<Rightarrow> OptionWrapper \<Rightarrow> OptionWrapper" where
  "description_set d opt = opt\<lparr>description := d\<rparr>"

definition optional :: "OptionWrapper \<Rightarrow> OptionWrapper" where
  "optional opt = opt\<lparr>required := False\<rparr>"

definition required_set :: "OptionWrapper \<Rightarrow> OptionWrapper" where
  "required_set opt = opt\<lparr>required := True\<rparr>"

definition store :: "nat \<Rightarrow> OptionWrapper \<Rightarrow> OptionWrapper" where
  "store a opt = opt\<lparr>m_ref := Some a\<rparr>"

definition flag_set :: "OptionWrapper \<Rightarrow> OptionWrapper" where
  "flag_set opt = opt\<lparr>flag := True\<rparr>"

definition defaultValue :: "val \<Rightarrow> OptionWrapper \<Rightarrow> OptionWrapper" where
  "defaultValue v opt = opt\<lparr>set_opt := True, has_default_value := True, m_value := Some v\<rparr>"

definition overruling_set :: "OptionWrapper \<Rightarrow> OptionWrapper" where
  "overruling_set opt = opt\<lparr>overruling := True\<rparr>"

text \<open>
  \<^verbatim>\<open>setValue\<close>: the flag \<^verbatim>\<open>set\<close> is raised before the conversion, so it stays raised
  when the converter throws; the caller's variable is written only through \<open>m_ref\<close>.
\<close>

definition setValue ::
  "string \<Rightarrow> OptionWrapper \<Rightarrow> (nat \<rightharpoonup> val) \<Rightarrow> (error + unit) \<times> OptionWrapper \<times> (nat \<rightharpoonup> val)" where
  "setValue value opt mem =
     (let opt1 = opt\<lparr>set_opt := True\<rparr> in
      case Get opt1 value of
        Inl e \<Rightarrow> (Inl e, opt1, mem)
      | Inr v \<Rightarrow>
          (let opt2 = opt1\<lparr>m_value := Some v\<rparr> in
           case m_ref opt2 of
             None \<Rightarrow> (Inr (), opt2, mem)
           | Some a \<Rightarrow> (Inr (), opt2, mem(a \<mapsto> v))))"

subsection \<open>ArgumentParser\<close>

record ArgumentParser =
  m_curr_arg :: nat
  m_argv :: "string list"
  m_options_map :: "string \<rightharpoonup> nat"
  m_options :: "OptionWrapper list"
  m_option_order :: "nat list"
  storage :: "nat \<rightharpoonup> val"
  events :: "event list"

definition ArgumentParser_new :: "string list \<Rightarrow> ArgumentParser" where
  "ArgumentParser_new arguments =
     \<lparr>m_curr_arg = 1, m_argv = arguments, m_options_map = Map.empty, m_options = [],
      m_option_order = [], storage = Map.empty, events = []\<rparr>"

text \<open>
  \<^verbatim>\<open>option<T>(short_option, long_option)\<close>: the descriptor is appended before the keys
  are checked, and a key already in the map is overwritten.  The handle returned is the
  index of the new descriptor.
\<close>

definition option_reg ::
  "tparam \<Rightarrow> string \<Rightarrow> string \<Rightarrow> ArgumentParser \<Rightarrow> (error + nat) \<times> ArgumentParser" where
  "option_reg T short long p =
     (let p1 = p\<lparr>m_options := m_options p @ [OptionWrapper_new T short long]\<rparr> in
      if short = [] \<and> long = [] then
        (Inl (ArgumentParserException
                ''Short option and long option name cannot both be empty.''), p1)
      else
        (let p2 = (if short \<noteq> []
                   then p1\<lparr>m_options_map := (m_options_map p1)(short \<mapsto> length (m_options p1) - 1)\<rparr>
                   else p1);
             p3 = (if long \<noteq> []
                   then p2\<lparr>m_options_map := (m_options_map p2)(long \<mapsto> length (m_options p2) - 1)\<rparr>
                   else p2)
         in (Inr (length (m_options p3) - 1), p3)))"

text \<open>A builder call on the handle \<open>i\<close> of a registered option.\<close>

definition on_option :: "nat \<Rightarrow> (OptionWrapper \<Rightarrow> OptionWrapper) \<Rightarrow> ArgumentParser \<Rightarrow> ArgumentParser" where
  "on_option i f p = p\<lparr>m_options := (m_options p)[i := f (m_options p ! i)]\<rparr>"

definition consume :: "ArgumentParser \<Rightarrow> (error + string) \<times> ArgumentParser" where
  "consume p =
     (let p1 = p\<lparr>m_curr_arg := m_curr_arg p + 1\<rparr> in
      if m_curr_arg p1 \<ge> length (m_argv p1)
      then (Inl (RuntimeError ''No more arguments.''), p1)
      else (Inr (m_argv p1 ! m_curr_arg p1), p1))"

fun find_char :: "char \<Rightarrow> string \<Rightarrow> nat option" where
  "find_char c [] = None"
| "find_char c (x # xs) = (if x = c then Some 0 else map_option Suc (find_char c xs))"

definition parseOptionWithEqualSign :: "string \<Rightarrow> string \<times> string option" where
  "parseOptionWithEqualSign arg =
     (case find_char (CHR ''='') arg of
        Some equal_sign_pos \<Rightarrow> (take equal_sign_pos arg, Some (drop (equal_sign_pos + 1) arg))
      | None \<Rightarrow> (arg, None))"

text \<open>\<^verbatim>\<open>option->setValue(value)\<close> on the descriptor with index \<open>idx\<close>.\<close>

definition call_setValue :: "string \<Rightarrow> nat \<Rightarrow> ArgumentParser \<Rightarrow> (error + unit) \<times> ArgumentParser" where
  "call_setValue value idx p =
     (case setValue value (m_options p ! idx) (storage p) of
        (r, opt', mem') \<Rightarrow> (r, p\<lparr>m_options := (m_options p)[idx := opt'], storage := mem'\<rparr>))"

text \<open>
  The branch of \<^verbatim>\<open>parseArguments\<close> for a token whose key is in the map with index
  \<open>idx\<close>: a flag is set from the empty string, any other option from the next token.
\<close>

definition parseArguments_matched :: "nat \<Rightarrow> ArgumentParser \<Rightarrow> (error + unit) \<times> ArgumentParser" where
  "parseArguments_matched idx p =
     (if flag (m_options p ! idx) then call_setValue [] idx p
      else
        (case consume p of
           (Inl e, p2) \<Rightarrow> (Inl e, p2)
         | (Inr v, p2) \<Rightarrow>
             (if m_options_map p2 v \<noteq> None then
                (Inl (ArgumentParserException
                        (''Expected argument after '' @ [CHR 0x27] @ name (m_options p2 ! idx)
                         @ [CHR 0x27] @ '', but none given.'')), p2)
              else call_setValue v idx p2)))"

text \<open>
  One iteration of the \<^verbatim>\<open>while\<close> loop of \<^verbatim>\<open>parseArguments\<close>, for
  \<open>m_curr_arg p < length (m_argv p)\<close>, up to and including \<^verbatim>\<open>++m_curr_arg\<close>.
  \<open>inject\<close> is the \<^verbatim>\<open>m_argv.insert\<close> of the value of a token \<^verbatim>\<open><option>=<value>\<close>.
\<close>

definition inject :: "string option \<Rightarrow> ArgumentParser \<Rightarrow> ArgumentParser" where
  "inject value p =
     (case value of
        Some v \<Rightarrow> p\<lparr>m_argv := take (m_curr_arg p + 1) (m_argv p) @ v #
                               drop (m_curr_arg p + 1) (m_argv p)\<rparr>
      | None \<Rightarrow> p)"

definition parseArguments_body :: "ArgumentParser \<Rightarrow> (error + unit) \<times> ArgumentParser" where
  "parseArguments_body p =
     (let arg = m_argv p ! m_curr_arg p;
          opt = fst (parseOptionWithEqualSign arg);
          value = snd (parseOptionWithEqualSign arg);
          p1 = inject value p
      in (case m_options_map p1 opt of
            None \<Rightarrow> (Inr (), p1\<lparr>m_curr_arg := m_curr_arg p1 + 1\<rparr>)
          | Some idx \<Rightarrow>
              (if length (m_options p1) \<le> idx then (Inl OutOfRange, p1)
               else
                 (case parseArguments_matched idx p1 of
                    (Inl e, p2) \<Rightarrow> (Inl e, p2)
                  | (Inr u, p2) \<Rightarrow>
                      (Inr (), p2\<lparr>m_option_order := m_option_order p2 @ [idx],
                                  m_curr_arg := m_curr_arg p2 + 1\<rparr>)))))"

text \<open>
  \<^verbatim>\<open>parseArguments\<close>: the \<^verbatim>\<open>while\<close> loop.  An exception leaves the loop with the state
  at the throw.
\<close>

function parseArguments :: "ArgumentParser \<Rightarrow> (error + unit) \<times> ArgumentParser" where
  "parseArguments p =
     (if m_curr_arg p < length (m_argv p) then
        (case parseArguments_body p of
           (Inl e, p') \<Rightarrow> (Inl e, p')
         | (Inr u, p') \<Rightarrow> parseArguments p')
      else (Inr (), p))"
  by pat_completeness auto

text \<open>What is left to scan, weighted so that every iteration makes it smaller.\<close>

definition scan_size :: "ArgumentParser \<Rightarrow> nat" where
  "scan_size p = sum_list (map (\<lambda>t. Suc (length t)) (drop (m_curr_arg p) (m_argv p)))"

text \<open>The first \<open>n\<close> iterations of the loop of \<^verbatim>\<open>parseArguments\<close>.\<close>

fun scan_n :: "nat \<Rightarrow> ArgumentParser \<Rightarrow> (error + unit) \<times> ArgumentParser" where
  "scan_n 0 p = (Inr (), p)"
| "scan_n (Suc n) p =
     (if m_curr_arg p < length (m_argv p) then
        (case parseArguments_body p of
           (Inl e, p') \<Rightarrow> (Inl e, p')
         | (Inr u, p') \<Rightarrow> scan_n n p')
      else (Inr (), p))"

text \<open>
  \<^verbatim>\<open>checkRequiredOptions\<close>: the first descriptor, in declaration order, that is required
  and not set raises.
\<close>

fun checkRequired_loop :: "OptionWrapper list \<Rightarrow> error + unit" where
  "checkRequired_loop [] = Inr ()"
| "checkRequired_loop (opt # opts) =
     (if required opt \<and> \<not> set_opt opt
      then Inl (ArgumentParserException
                  (''Option '' @ [CHR 0x27] @ name opt @ [CHR 0x27] @ '' is required.''))
      else checkRequired_loop opts)"

definition checkRequiredOptions :: "ArgumentParser \<Rightarrow> error + unit" where
  "checkRequiredOptions p = checkRequired_loop (m_options p)"

text \<open>
  \<^verbatim>\<open>invokeCallbacks\<close>: one callback per entry of \<^verbatim>\<open>m_option_order\<close>, in that order.
  (\<^verbatim>\<open>m_options[option_idx]\<close> is unchecked; the entries come from \<^verbatim>\<open>m_options.at(idx)\<close>
  of the scan and are in range.)
\<close>

definition invokeCallbacks :: "ArgumentParser \<Rightarrow> ArgumentParser" where
  "invokeCallbacks p =
     p\<lparr>events := events p @
          map (\<lambda>option_idx. Callback option_idx (m_value (m_options p ! option_idx)))
              (m_option_order p)\<rparr>"

text \<open>
  \<^verbatim>\<open>checkOverrulingOptions\<close>: the first descriptor, in declaration order, that is set and
  overruling has its callback invoked; \<open>i\<close> counts the descriptors passed.
\<close>

fun checkOverruling_loop :: "OptionWrapper list \<Rightarrow> nat \<Rightarrow> event option" where
  "checkOverruling_loop [] i = None"
| "checkOverruling_loop (opt # opts) i =
     (if set_opt opt \<and> overruling opt then Some (Callback i (m_value opt))
      else checkOverruling_loop opts (Suc i))"

definition checkOverrulingOptions :: "ArgumentParser \<Rightarrow> bool \<times> ArgumentParser" where
  "checkOverrulingOptions p =
     (case checkOverruling_loop (m_options p) 0 of
        Some ev \<Rightarrow> (True, p\<lparr>events := events p @ [ev]\<rparr>)
      | None \<Rightarrow> (False, p))"

definition parse :: "ArgumentParser \<Rightarrow> (error + bool) \<times> ArgumentParser" where
  "parse p =
     (if length (m_argv p) < 2 then (Inr False, p\<lparr>events := events p @ [PrintHelp]\<rparr>)
      else
        (case parseArguments p of
           (Inl e, p1) \<Rightarrow> (Inl e, p1)
         | (Inr u, p1) \<Rightarrow>
             (case checkOverrulingOptions p1 of
                (True, p2) \<Rightarrow> (Inr False, p2)
              | (False, p2) \<Rightarrow>
                  (case checkRequiredOptions p2 of
                     Inl e \<Rightarrow> (Inl e, p2)
                   | Inr u \<Rightarrow> (Inr True, invokeCallbacks p2)))))"

text \<open>What a caller can see of a parser: everything but the private argument cursor.\<close>

definition visible ::
  "ArgumentParser \<Rightarrow> (string \<rightharpoonup> nat) \<times> OptionWrapper list \<times> nat list \<times> (nat \<rightharpoonup> val) \<times> event list" where
  "visible p = (m_options_map p, m_options p, m_option_order p, storage p, events p)"

text \<open>The fields of a token between its \<^verbatim>\<open>=\<close> signs: the keys the scan can read from it.\<close>

fun key_fields :: "string \<Rightarrow> string list" where
  "key_fields [] = [[]]"
| "key_fields (c # cs) =
     (if c = CHR ''='' then [] # key_fields cs
      else (case key_fields cs of f # fs \<Rightarrow> (c # f) # fs | [] \<Rightarrow> [[c]]))"

text \<open>
  No token still to be scanned has a field that is a key of the descriptor \<open>i\<close>: the
  option is absent from the input.
\<close>

definition absent :: "nat \<Rightarrow> ArgumentParser \<Rightarrow> bool" where
  "absent i p =
     (\<forall>t \<in> set (drop (m_curr_arg p) (m_argv p)). \<forall>k \<in> set (key_fields t). m_options_map p k \<noteq> Some i)"

subsection \<open>The choice set\<close>

text \<open>
  Modelled from the spec: \<^verbatim>\<open>choices(...)\<close>, the choice set of an option and its check, is
  missing from \<^verbatim>\<open>include/clapp.hpp\<close>; only its callers are there (the test cases
  \<^verbatim>\<open>test_option_with_choices\<close> and \<^verbatim>\<open>test_option_with_choices_fail\<close>).  The spec: the
  choice set is an "optional restricted set of acceptable raw values; empty means
  unrestricted", and a raw value is validated "against \<^verbatim>\<open>choiceSet\<close> if non-empty; on mismatch fail
  with a \<^verbatim>\<open>InvalidChoiceError\<close>" before it is converted and stored.  The check is put in
  front of the converter of the descriptor, which is where \<^verbatim>\<open>setValue\<close> receives the raw
  value.
\<close>

definition choices :: "string list \<Rightarrow> OptionWrapper \<Rightarrow> OptionWrapper" where
  "choices cs opt =
     opt\<lparr>Get := (\<lambda>value. if cs \<noteq> [] \<and> value \<notin> set cs then Inl (InvalidChoiceError value)
                         else Get opt value)\<rparr>"

subsection \<open>The state of the scan\<close>

text \<open>
  Where the scan stands: the key it reads from the current token, and the token that
  follows it once the value of a \<^verbatim>\<open><option>=<value>\<close> token has been injected
  (\<open>None\<close> when there is none).
\<close>

definition current_key :: "ArgumentParser \<Rightarrow> string" where
  "current_key p = fst (parseOptionWithEqualSign (m_argv p ! m_curr_arg p))"

definition following :: "ArgumentParser \<Rightarrow> string option" where
  "following p =
     (let p1 = inject (snd (parseOptionWithEqualSign (m_argv p ! m_curr_arg p))) p
      in if Suc (m_curr_arg p1) < length (m_argv p1) then Some (m_argv p1 ! Suc (m_curr_arg p1))
         else None)"

text \<open>
  The tokens from the cursor on: the part of \<^verbatim>\<open>m_argv\<close> the scan can still read.
\<close>

definition remaining :: "ArgumentParser \<Rightarrow> string list" where
  "remaining p = drop (m_curr_arg p) (m_argv p)"

text \<open>
  The parser in the same state on the argument vector in which the current token is
  replaced by the two tokens \<open>k\<close> and \<open>v\<close>.
\<close>

definition two_tokens :: "string \<Rightarrow> string \<Rightarrow> ArgumentParser \<Rightarrow> ArgumentParser" where
  "two_tokens k v p =
     p\<lparr>m_argv := take (m_curr_arg p) (m_argv p) @ k # v # drop (Suc (m_curr_arg p)) (m_argv p)\<rparr>"

subsection \<open>Parsers of the documentation and of the tests\<close>

text \<open>The parser of the README, reduced to \<^verbatim>\<open>addHelp()\<close> and the required \<^verbatim>\<open>-c\<close>.\<close>

definition help_cfg_parser :: "string list \<Rightarrow> ArgumentParser" where
  "help_cfg_parser arguments =
     on_option 1 required_set
       (snd (option_reg string_T ''-c'' ''--cfg''
          (on_option 0 (overruling_set \<circ> flag_set)
             (snd (option_reg bool_T ''-h'' ''--help'' (ArgumentParser_new arguments))))))"

text \<open>
  \<^verbatim>\<open>addHelp()\<close>, a version option that is overruling and has a default value, and a valued
  option \<^verbatim>\<open>-b\<close>.
\<close>

definition help_version_parser :: "string list \<Rightarrow> ArgumentParser" where
  "help_version_parser arguments =
     snd (option_reg string_T ''-b'' []
       (on_option 1 (defaultValue (BoolV False) \<circ> overruling_set)
          (snd (option_reg bool_T ''-v'' ''--version''
             (on_option 0 (overruling_set \<circ> flag_set)
                (snd (option_reg bool_T ''-h'' ''--help'' (ArgumentParser_new arguments))))))))"

text \<open>
  An option bound to the caller's variable at address 7 and then given a default value:
  \<^verbatim>\<open>parser.option<std::string>("-a", "").store(s).defaultValue("abc")\<close>, with \<^verbatim>\<open>s\<close>
  holding \<^verbatim>\<open>"old"\<close>.
\<close>

definition bound_default_parser :: "string list \<Rightarrow> ArgumentParser" where
  "bound_default_parser arguments =
     on_option 0 (defaultValue (StrV ''abc'') \<circ> store 7)
       (snd (option_reg string_T ''-a'' []
          ((ArgumentParser_new arguments)\<lparr>storage := [7 \<mapsto> StrV ''old'']\<rparr>)))"

text \<open>
  A required option \<^verbatim>\<open>-a\<close>, with a default value or without, a valued option \<^verbatim>\<open>-b\<close> and
  \<^verbatim>\<open>addHelp()\<close>.
\<close>

definition required_parser :: "val option \<Rightarrow> string list \<Rightarrow> ArgumentParser" where
  "required_parser dflt arguments =
     on_option 2 (overruling_set \<circ> flag_set)
       (snd (option_reg bool_T ''-h'' ''--help''
          (snd (option_reg string_T ''-b'' []
             (on_option 0 (case dflt of None \<Rightarrow> required_set
                                      | Some d \<Rightarrow> defaultValue d \<circ> required_set)
                (snd (option_reg string_T ''-a'' [] (ArgumentParser_new arguments))))))))"

text \<open>
  The test case \<^verbatim>\<open>test_option_with_equal_sign\<close>: a required flag \<^verbatim>\<open>-a\<close> and a string
  option \<^verbatim>\<open>--option\<close> bound to the caller's variable at address 0.
\<close>

definition equal_sign_parser :: "string list \<Rightarrow> ArgumentParser" where
  "equal_sign_parser arguments =
     on_option 1 (store 0)
       (snd (option_reg string_T [] ''--option''
          (on_option 0 (flag_set \<circ> required_set)
             (snd (option_reg bool_T [] ''-a'' (ArgumentParser_new arguments))))))"




subsection \<open>Termination of the scan\<close>

lemma inject_curr [simp]: "m_curr_arg (inject v p) = m_curr_arg p"
  by (simp add: inject_def split: option.splits)

lemma call_setValue_frame:
  "call_setValue v idx p = (r, p') \<Longrightarrow> m_argv p' = m_argv p \<and> m_curr_arg p' = m_curr_arg p"
  by (auto simp: call_setValue_def split: prod.splits)

lemma find_char_Some:
  "find_char c s = Some n \<Longrightarrow> n < length s \<and> s ! n = c \<and> c \<notin> set (take n s)"
  by (induction s arbitrary: n) (auto split: if_splits)

lemma find_char_None: "find_char c s = None \<longleftrightarrow> c \<notin> set s"
  by (induction s) auto

lemma scan_size_drop:
  "i < length xs \<Longrightarrow> sum_list (map (\<lambda>t. Suc (length t)) (drop i xs)) =
     Suc (length (xs ! i)) + sum_list (map (\<lambda>t. Suc (length t)) (drop (Suc i) xs))"
  by (simp add: Cons_nth_drop_Suc [symmetric])

lemma scan_size_mono:
  "sum_list (map (\<lambda>t. Suc (length t)) (drop (Suc i) xs))
     \<le> sum_list (map (\<lambda>t. Suc (length t)) (drop i xs))"
  by (cases "i < length xs") (simp_all add: scan_size_drop)

lemma matched_frame:
  "parseArguments_matched idx p = (Inr u, p') \<Longrightarrow>
     m_argv p' = m_argv p \<and>
     (m_curr_arg p' = m_curr_arg p \<or>
      (m_curr_arg p' = Suc (m_curr_arg p) \<and> Suc (m_curr_arg p) < length (m_argv p)))"
  by (auto simp: parseArguments_matched_def consume_def Let_def dest: call_setValue_frame
           split: if_splits prod.splits sum.splits)

lemma inject_size:
  assumes "m_curr_arg p < length (m_argv p)"
  shows "sum_list (map (\<lambda>t. Suc (length t))
           (drop (Suc (m_curr_arg p))
              (m_argv (inject (snd (parseOptionWithEqualSign (m_argv p ! m_curr_arg p))) p))))
         < scan_size p"
proof (cases "find_char (CHR ''='') (m_argv p ! m_curr_arg p)")
  case None
  then show ?thesis using assms
    by (simp add: parseOptionWithEqualSign_def inject_def scan_size_def scan_size_drop)
next
  case (Some n)
  then have "n < length (m_argv p ! m_curr_arg p)"
    by (simp add: find_char_Some)
  then show ?thesis using assms Some
    by (simp add: parseOptionWithEqualSign_def inject_def scan_size_def scan_size_drop)
qed

lemma body_frame:
  assumes "parseArguments_body p = (Inr u, p')"
  shows "m_argv p' = m_argv (inject (snd (parseOptionWithEqualSign (m_argv p ! m_curr_arg p))) p)
         \<and> (m_curr_arg p' = Suc (m_curr_arg p) \<or> m_curr_arg p' = Suc (Suc (m_curr_arg p)))"
  using assms
  by (auto simp: parseArguments_body_def Let_def dest!: matched_frame
           split: option.splits if_splits prod.splits sum.splits)

lemma body_decreases:
  assumes "m_curr_arg p < length (m_argv p)" "parseArguments_body p = (Inr u, p')"
  shows "scan_size p' < scan_size p"
proof -
  let ?xs = "m_argv (inject (snd (parseOptionWithEqualSign (m_argv p ! m_curr_arg p))) p)"
  let ?f = "\<lambda>i. sum_list (map (\<lambda>t. Suc (length t)) (drop i ?xs))"
  from body_frame [OF assms(2)]
  have argv: "m_argv p' = ?xs"
    and curr: "m_curr_arg p' = Suc (m_curr_arg p) \<or> m_curr_arg p' = Suc (Suc (m_curr_arg p))"
    by simp_all
  have "?f (Suc (Suc (m_curr_arg p))) \<le> ?f (Suc (m_curr_arg p))"
    by (rule scan_size_mono)
  with curr argv have "scan_size p' \<le> ?f (Suc (m_curr_arg p))"
    by (auto simp: scan_size_def)
  with inject_size [OF assms(1)] show ?thesis by simp
qed

termination parseArguments
  by (relation "measure scan_size") (auto intro: body_decreases [OF _ sym])

declare parseArguments.simps [simp del]

subsection \<open>What the scan leaves unchanged\<close>

lemma setValue_fields:
  "setValue value opt mem = (r, opt', mem') \<Longrightarrow>
     set_opt opt' \<and> opt'\<lparr>set_opt := s, m_value := v\<rparr> = opt\<lparr>set_opt := s, m_value := v\<rparr>"
  by (auto simp: setValue_def Let_def split: sum.splits option.splits)

lemma call_setValue_fields:
  assumes "call_setValue value idx p = (r, p')"
  shows "m_options_map p' = m_options_map p" "events p' = events p"
    "m_option_order p' = m_option_order p"
    "length (m_options p') = length (m_options p)"
    "j \<noteq> idx \<Longrightarrow> m_options p' ! j = m_options p ! j"
  using assms
  by (auto simp: call_setValue_def split: prod.splits)

lemma call_setValue_option:
  assumes "call_setValue value idx p = (r, p')" "j < length (m_options p)"
  shows "(m_options p' ! j)\<lparr>set_opt := s, m_value := v\<rparr> = (m_options p ! j)\<lparr>set_opt := s, m_value := v\<rparr>
       \<and> (set_opt (m_options p ! j) \<longrightarrow> set_opt (m_options p' ! j))"
proof (cases "j = idx")
  case True
  obtain opt' mem' where sv: "setValue value (m_options p ! idx) (storage p) = (r, opt', mem')"
    and p': "p' = p\<lparr>m_options := (m_options p)[idx := opt'], storage := mem'\<rparr>"
    using assms(1) by (auto simp: call_setValue_def split: prod.splits)
  from setValue_fields [OF sv, where s = s and v = v] True assms(2) p' show ?thesis by simp
next
  case False
  with call_setValue_fields(5) [OF assms(1)] show ?thesis by simp
qed

lemma consume_fields:
  assumes "consume p = (r, p')"
  shows "m_options_map p' = m_options_map p" "events p' = events p"
    "m_option_order p' = m_option_order p" "m_options p' = m_options p" "storage p' = storage p"
    "m_argv p' = m_argv p"
  using assms by (auto simp: consume_def Let_def split: if_splits)

lemma inject_fields [simp]:
  "m_options_map (inject x p) = m_options_map p" "events (inject x p) = events p"
  "m_option_order (inject x p) = m_option_order p" "m_options (inject x p) = m_options p"
  "storage (inject x p) = storage p"
  by (simp_all add: inject_def split: option.splits)

lemma matched_fields:
  assumes "parseArguments_matched idx p = (r, p')"
  shows "m_options_map p' = m_options_map p" "events p' = events p"
    "m_option_order p' = m_option_order p"
    "length (m_options p') = length (m_options p)"
    "j \<noteq> idx \<Longrightarrow> m_options p' ! j = m_options p ! j"
  using assms
  by (auto simp: parseArguments_matched_def consume_fields call_setValue_fields
           split: if_splits prod.splits sum.splits)

lemma matched_option:
  assumes "parseArguments_matched idx p = (r, p')" "j < length (m_options p)"
  shows "(m_options p' ! j)\<lparr>set_opt := s, m_value := v\<rparr> = (m_options p ! j)\<lparr>set_opt := s, m_value := v\<rparr>
       \<and> (set_opt (m_options p ! j) \<longrightarrow> set_opt (m_options p' ! j))"
  using assms
  by (auto simp: parseArguments_matched_def consume_fields
           dest: call_setValue_option [where j = j and s = s and v = v]
           split: if_splits prod.splits sum.splits)

lemma body_fields:
  assumes "parseArguments_body p = (r, p')"
  shows "m_options_map p' = m_options_map p" "events p' = events p"
    "length (m_options p') = length (m_options p)"
  using assms
  by (auto simp: parseArguments_body_def Let_def matched_fields
           split: option.splits if_splits prod.splits sum.splits)

lemma body_option:
  assumes "parseArguments_body p = (r, p')" "j < length (m_options p)"
  shows "(m_options p' ! j)\<lparr>set_opt := s, m_value := v\<rparr> = (m_options p ! j)\<lparr>set_opt := s, m_value := v\<rparr>
       \<and> (set_opt (m_options p ! j) \<longrightarrow> set_opt (m_options p' ! j))"
  using assms
  by (auto simp: parseArguments_body_def Let_def
           dest: matched_option [where j = j and s = s and v = v]
           split: option.splits if_splits prod.splits sum.splits)

lemma parseArguments_rule:
  assumes run: "parseArguments p = (r, p')" and inv: "I p"
    and refl: "\<And>p. I p \<Longrightarrow> R p p"
    and step: "\<And>p r q. I p \<Longrightarrow> m_curr_arg p < length (m_argv p) \<Longrightarrow>
                 parseArguments_body p = (r, q) \<Longrightarrow> R p q \<and> (r = Inr () \<longrightarrow> I q)"
    and trans: "\<And>p q s. R p q \<Longrightarrow> R q s \<Longrightarrow> R p s"
  shows "R p p'"
  using run inv
proof (induction p rule: parseArguments.induct)
  case (1 p)
  show ?case
  proof (cases "m_curr_arg p < length (m_argv p)")
    case False
    with "1.prems" show ?thesis by (simp add: parseArguments.simps refl)
  next
    case True
    obtain r1 p1 where b: "parseArguments_body p = (r1, p1)" by (cases "parseArguments_body p")
    from step [OF "1.prems"(2) True b] have R1: "R p p1" and I1: "r1 = Inr () \<Longrightarrow> I p1"
      by simp_all
    show ?thesis
    proof (cases r1)
      case (Inl e)
      with True b "1.prems" R1 show ?thesis
        by (auto simp: parseArguments.simps [of p])
    next
      case (Inr u)
      with True b "1.prems" have "parseArguments p1 = (r, p')"
        by (simp add: parseArguments.simps [of p])
      from "1.IH" [OF True b [symmetric, unfolded Inr] _ this] I1 Inr have "R p1 p'"
        by simp
      with R1 show ?thesis by (rule trans)
    qed
  qed
qed

lemma parseArguments_fields:
  assumes "parseArguments p = (r, p')"
  shows "m_options_map p' = m_options_map p" "events p' = events p"
     "length (m_options p') = length (m_options p)"
proof -
  have "m_options_map p' = m_options_map p \<and> events p' = events p \<and>
     length (m_options p') = length (m_options p)"
    by (rule parseArguments_rule [OF assms, where I = "\<lambda>p. True"
          and R = "\<lambda>p q. m_options_map q = m_options_map p \<and> events q = events p \<and>
                         length (m_options q) = length (m_options p)"])
       (simp_all add: body_fields)
  then show "m_options_map p' = m_options_map p" "events p' = events p"
     "length (m_options p') = length (m_options p)" by simp_all
qed

lemma parseArguments_option:
  assumes "parseArguments p = (r, p')" "j < length (m_options p)"
  shows "(m_options p' ! j)\<lparr>set_opt := s, m_value := v\<rparr> = (m_options p ! j)\<lparr>set_opt := s, m_value := v\<rparr>
       \<and> (set_opt (m_options p ! j) \<longrightarrow> set_opt (m_options p' ! j))"
proof -
  have "length (m_options p') = length (m_options p) \<and> (j < length (m_options p) \<longrightarrow>
      (m_options p' ! j)\<lparr>set_opt := s, m_value := v\<rparr> = (m_options p ! j)\<lparr>set_opt := s, m_value := v\<rparr>
       \<and> (set_opt (m_options p ! j) \<longrightarrow> set_opt (m_options p' ! j)))"
    by (rule parseArguments_rule [OF assms(1), where I = "\<lambda>p. True"
          and R = "\<lambda>p q. length (m_options q) = length (m_options p) \<and> (j < length (m_options p) \<longrightarrow>
      (m_options q ! j)\<lparr>set_opt := s, m_value := v\<rparr> = (m_options p ! j)\<lparr>set_opt := s, m_value := v\<rparr>
       \<and> (set_opt (m_options p ! j) \<longrightarrow> set_opt (m_options q ! j)))"])
       (simp_all add: body_fields body_option)
  with assms(2) show ?thesis by simp
qed

lemma option_static:
  assumes "opt'\<lparr>set_opt := True, m_value := None\<rparr> = opt\<lparr>set_opt := True, m_value := None\<rparr>"
  shows "required opt' = required opt" "overruling opt' = overruling opt" "flag opt' = flag opt"
    "name opt' = name opt" "Get opt' = Get opt" "m_ref opt' = m_ref opt"
    "has_default_value opt' = has_default_value opt"
    "short_option opt' = short_option opt" "long_option opt' = long_option opt"
proof -
  show "required opt' = required opt" using arg_cong [OF assms, of required] by simp
  show "overruling opt' = overruling opt" using arg_cong [OF assms, of overruling] by simp
  show "flag opt' = flag opt" using arg_cong [OF assms, of flag] by simp
  show "Get opt' = Get opt" using arg_cong [OF assms, of Get] by simp
  show "m_ref opt' = m_ref opt" using arg_cong [OF assms, of m_ref] by simp
  show "has_default_value opt' = has_default_value opt"
    using arg_cong [OF assms, of has_default_value] by simp
  show s: "short_option opt' = short_option opt" using arg_cong [OF assms, of short_option] by simp
  show l: "long_option opt' = long_option opt" using arg_cong [OF assms, of long_option] by simp
  from s l show "name opt' = name opt" by (simp add: name_def)
qed

subsection \<open>Overruling options\<close>

lemmas clapp_defs =
  parse_def parseArguments.simps parseArguments_body_def parseArguments_matched_def
  checkOverrulingOptions_def checkRequiredOptions_def invokeCallbacks_def
  option_reg_def on_option_def ArgumentParser_new_def OptionWrapper_new_def string_T_def bool_T_def
  flag_set_def required_set_def overruling_set_def defaultValue_def store_def choices_def
  inject_def parseOptionWithEqualSign_def call_setValue_def setValue_def consume_def name_def
  TypeParser_bool_Get_def TypeParser_string_Get_def Let_def

lemma checkOverruling_loop_None:
  "checkOverruling_loop opts n = None \<longleftrightarrow> (\<forall>opt \<in> set opts. \<not> (set_opt opt \<and> overruling opt))"
  by (induction opts arbitrary: n) auto

lemma checkOverruling_loop_Some:
  "\<exists>opt \<in> set opts. set_opt opt \<and> overruling opt \<Longrightarrow>
     \<exists>i < length opts. set_opt (opts ! i) \<and> overruling (opts ! i) \<and>
        (\<forall>j < i. \<not> (set_opt (opts ! j) \<and> overruling (opts ! j))) \<and>
        checkOverruling_loop opts n = Some (Callback (n + i) (m_value (opts ! i)))"
proof (induction opts arbitrary: n)
  case Nil
  then show ?case by simp
next
  case (Cons a opts)
  show ?case
  proof (cases "set_opt a \<and> overruling a")
    case True
    then show ?thesis by (intro exI [of _ 0]) simp
  next
    case False
    with Cons.prems have "\<exists>opt \<in> set opts. set_opt opt \<and> overruling opt" by auto
    from Cons.IH [OF this, of "Suc n"] obtain i where i: "i < length opts"
      "set_opt (opts ! i)" "overruling (opts ! i)"
      "\<forall>j < i. \<not> (set_opt (opts ! j) \<and> overruling (opts ! j))"
      "checkOverruling_loop opts (Suc n) = Some (Callback (Suc n + i) (m_value (opts ! i)))"
      by blast
    have "\<forall>j < Suc i. \<not> (set_opt ((a # opts) ! j) \<and> overruling ((a # opts) ! j))"
      using False i(4) by (auto simp: less_Suc_eq_0_disj)
    with False i show ?thesis by (intro exI [of _ "Suc i"]) simp
  qed
qed

lemma parse_overruling:
  assumes "2 \<le> length (m_argv p)" and "parseArguments p = (Inr u, p1)"
    and "\<exists>opt \<in> set (m_options p1). set_opt opt \<and> overruling opt"
  shows "\<exists>i < length (m_options p1).
           set_opt (m_options p1 ! i) \<and> overruling (m_options p1 ! i) \<and>
           (\<forall>j < i. \<not> (set_opt (m_options p1 ! j) \<and> overruling (m_options p1 ! j))) \<and>
           parse p = (Inr False, p1\<lparr>events := events p @ [Callback i (m_value (m_options p1 ! i))]\<rparr>)"
proof -
  from checkOverruling_loop_Some [OF assms(3), of 0] obtain i where i: "i < length (m_options p1)"
      "set_opt (m_options p1 ! i)" "overruling (m_options p1 ! i)"
      "\<forall>j < i. \<not> (set_opt (m_options p1 ! j) \<and> overruling (m_options p1 ! j))"
      "checkOverruling_loop (m_options p1) 0 = Some (Callback i (m_value (m_options p1 ! i)))"
    by auto
  have "events p1 = events p" using parseArguments_fields(2) [OF assms(2)] .
  with assms(1,2) i(5)
  have "parse p = (Inr False, p1\<lparr>events := events p @ [Callback i (m_value (m_options p1 ! i))]\<rparr>)"
    by (simp add: parse_def checkOverrulingOptions_def)
  with i(1-4) show ?thesis by blast
qed

text \<open>
  C3.  When the scan has completed and some descriptor is set and overruling, \<open>parse\<close>
  returns \<open>false\<close> and the only callback invoked is that of the first such descriptor in
  declaration order; the required-option check is not made (no hypothesis on the
  required options, and the outcome is not an exception) and no other callback runs.
\<close>

theorem overruling_short_circuit:
  assumes "2 \<le> length (m_argv p)" and "parseArguments p = (Inr u, p1)"
    and "\<exists>opt \<in> set (m_options p1). set_opt opt \<and> overruling opt"
  shows "\<exists>i < length (m_options p1).
           set_opt (m_options p1 ! i) \<and> overruling (m_options p1 ! i) \<and>
           (\<forall>j < i. \<not> (set_opt (m_options p1 ! j) \<and> overruling (m_options p1 ! j))) \<and>
           parse p = (Inr False, p1\<lparr>events := events p @ [Callback i (m_value (m_options p1 ! i))]\<rparr>)"
  using assms by (rule parse_overruling)

theorem overruling_short_circuit_witness:
  "2 \<le> length (m_argv (help_cfg_parser [''prog'', ''-h''])) \<and>
   fst (parseArguments (help_cfg_parser [''prog'', ''-h''])) = Inr () \<and>
   (\<exists>opt \<in> set (m_options (snd (parseArguments (help_cfg_parser [''prog'', ''-h''])))).
      set_opt opt \<and> overruling opt) \<and>
   required (m_options (help_cfg_parser [''prog'', ''-h'']) ! 1) \<and>
   fst (parse (help_cfg_parser [''prog'', ''-h''])) = Inr False \<and>
   events (snd (parse (help_cfg_parser [''prog'', ''-h''])))  = [Callback 0 (Some (BoolV True))]"
proof -
  let ?p = "help_cfg_parser [''prog'', ''-h'']"
  have a: "2 \<le> length (m_argv ?p)" by (simp add: help_cfg_parser_def clapp_defs)
  have b: "fst (parseArguments ?p) = Inr ()" by (simp add: help_cfg_parser_def clapp_defs)
  then have b': "parseArguments ?p = (Inr (), snd (parseArguments ?p))"
    by (metis prod.collapse)
  have c: "\<exists>opt \<in> set (m_options (snd (parseArguments ?p))). set_opt opt \<and> overruling opt"
    by (simp add: help_cfg_parser_def clapp_defs)
  have d: "required (m_options ?p ! 1)" by (simp add: help_cfg_parser_def clapp_defs)
  have e: "events ?p = []" by (simp add: help_cfg_parser_def clapp_defs)
  have f: "m_value (m_options (snd (parseArguments ?p)) ! 0) = Some (BoolV True)"
      "\<not> overruling (m_options (snd (parseArguments ?p)) ! 1)"
      "length (m_options (snd (parseArguments ?p))) = 2"
    by (simp_all add: help_cfg_parser_def clapp_defs)
  from overruling_short_circuit [OF a b' c] obtain i where
     i: "i < length (m_options (snd (parseArguments ?p)))" "overruling (m_options (snd (parseArguments ?p)) ! i)"
     "parse ?p = (Inr False, (snd (parseArguments ?p))\<lparr>events := events ?p @ [Callback i (m_value (m_options (snd (parseArguments ?p)) ! i))]\<rparr>)"
    by blast
  from i(1,2) f(2,3) have "i = 0" by (cases i) auto
  with i(3) e f(1) have "fst (parse ?p) = Inr False" "events (snd (parse ?p))  = [Callback 0 (Some (BoolV True))]"
    by simp_all
  with a b c d show ?thesis by blast
qed

lemma parseArguments_static:
  assumes "parseArguments p = (r, p')" "j < length (m_options p)"
  shows "required (m_options p' ! j) = required (m_options p ! j)"
    "overruling (m_options p' ! j) = overruling (m_options p ! j)"
    "flag (m_options p' ! j) = flag (m_options p ! j)"
    "name (m_options p' ! j) = name (m_options p ! j)"
    "Get (m_options p' ! j) = Get (m_options p ! j)"
    "m_ref (m_options p' ! j) = m_ref (m_options p ! j)"
    "set_opt (m_options p ! j) \<Longrightarrow> set_opt (m_options p' ! j)"
proof -
  from parseArguments_option [OF assms, where s = True and v = None]
  have eq: "(m_options p' ! j)\<lparr>set_opt := True, m_value := None\<rparr> =
            (m_options p ! j)\<lparr>set_opt := True, m_value := None\<rparr>"
    and mono: "set_opt (m_options p ! j) \<longrightarrow> set_opt (m_options p' ! j)"
    by simp_all
  show "required (m_options p' ! j) = required (m_options p ! j)"
    "overruling (m_options p' ! j) = overruling (m_options p ! j)"
    "flag (m_options p' ! j) = flag (m_options p ! j)"
    "name (m_options p' ! j) = name (m_options p ! j)"
    "Get (m_options p' ! j) = Get (m_options p ! j)"
    "m_ref (m_options p' ! j) = m_ref (m_options p ! j)"
    by (rule option_static [OF eq])+
  show "set_opt (m_options p ! j) \<Longrightarrow> set_opt (m_options p' ! j)"
    using mono by simp
qed

text \<open>
  C10 (as amended).  \<^verbatim>\<open>defaultValue\<close> marks the option as set when it is declared.  When
  a parser holds an option that is overruling and has a default value, every \<open>parse\<close> on
  at least two arguments whose scan raises no exception returns \<open>false\<close> and invokes
  exactly one callback: that of the first descriptor in declaration order that is set and
  overruling, which is the option itself unless an earlier one is set and overruling too.
\<close>

theorem default_overruling_short_circuit:
  assumes "2 \<le> length (m_argv p)" and "i < length (m_options p)"
    and "m_options p ! i = defaultValue d opt" and "overruling opt"
    and "parseArguments p = (Inr u, p1)"
  shows "set_opt (defaultValue d opt) \<and> has_default_value (defaultValue d opt) \<and>
         (\<exists>j \<le> i.
           set_opt (m_options p1 ! j) \<and> overruling (m_options p1 ! j) \<and>
           (\<forall>k < j. \<not> (set_opt (m_options p1 ! k) \<and> overruling (m_options p1 ! k))) \<and>
           parse p = (Inr False, p1\<lparr>events := events p @ [Callback j (m_value (m_options p1 ! j))]\<rparr>))"
proof -
  have len: "length (m_options p1) = length (m_options p)"
    using parseArguments_fields(3) [OF assms(5)] .
  from parseArguments_static [OF assms(5,2)]
  have st: "overruling (m_options p1 ! i) = overruling (m_options p ! i)"
    and mono: "set_opt (m_options p ! i) \<longrightarrow> set_opt (m_options p1 ! i)"
    by simp_all
  from assms(3,4) st mono have i1: "set_opt (m_options p1 ! i)" "overruling (m_options p1 ! i)"
    by (simp_all add: defaultValue_def)
  from assms(2) len have "m_options p1 ! i \<in> set (m_options p1)" by simp
  with i1 have "\<exists>opt \<in> set (m_options p1). set_opt opt \<and> overruling opt"
    by blast
  from parse_overruling [OF assms(1,5) this] obtain j where j:
    "set_opt (m_options p1 ! j)" "overruling (m_options p1 ! j)"
    "\<forall>k < j. \<not> (set_opt (m_options p1 ! k) \<and> overruling (m_options p1 ! k))"
    "parse p = (Inr False, p1\<lparr>events := events p @ [Callback j (m_value (m_options p1 ! j))]\<rparr>)"
    by blast
  from j(3) i1 have "j \<le> i" by (meson not_le)
  with j show ?thesis by (auto simp: defaultValue_def)
qed

theorem default_overruling_short_circuit_witness:
  "fst (parse (help_version_parser [''prog'', ''x''])) = Inr False \<and>
   events (snd (parse (help_version_parser [''prog'', ''x'']))) = [Callback 1 (Some (BoolV False))]"
proof -
  let ?p = "help_version_parser [''prog'', ''x'']"
  let ?o = "overruling_set (OptionWrapper_new bool_T ''-v'' ''--version'')"
  have a: "2 \<le> length (m_argv ?p)" "1 < length (m_options ?p)"
    by (simp_all add: help_version_parser_def clapp_defs)
  have b: "m_options ?p ! 1 = defaultValue (BoolV False) ?o" "overruling ?o"
    by (simp_all add: help_version_parser_def clapp_defs)
  have "fst (parseArguments ?p) = Inr ()" by (simp add: help_version_parser_def clapp_defs)
  then have c: "parseArguments ?p = (Inr (), snd (parseArguments ?p))"
    by (metis prod.collapse)
  have e: "events ?p = []" by (simp add: help_version_parser_def clapp_defs)
  have f: "m_value (m_options (snd (parseArguments ?p)) ! 1) = Some (BoolV False)"
      "\<not> set_opt (m_options (snd (parseArguments ?p)) ! 0)"
    by (simp_all add: help_version_parser_def clapp_defs)
  from default_overruling_short_circuit [OF a b c] obtain j where
     j: "j \<le> 1" "set_opt (m_options (snd (parseArguments ?p)) ! j)"
     "parse ?p = (Inr False, (snd (parseArguments ?p))\<lparr>events := events ?p @ [Callback j (m_value (m_options (snd (parseArguments ?p)) ! j))]\<rparr>)"
    by blast
  from j(1,2) f(2) have "j = 1" by (cases j) auto
  with j(3) e f(1) show ?thesis by simp
qed

theorem default_overruling_counterexample:
  "overruling (m_options (help_version_parser [''prog'', ''-b'']) ! 1) \<and>
   has_default_value (m_options (help_version_parser [''prog'', ''-b'']) ! 1) \<and>
   fst (parse (help_version_parser [''prog'', ''-b''])) = Inl (RuntimeError ''No more arguments.'') \<and>
   events (snd (parse (help_version_parser [''prog'', ''-b'']))) = [] \<and>
   overruling (m_options (help_version_parser [''prog'', ''-h'']) ! 1) \<and>
   has_default_value (m_options (help_version_parser [''prog'', ''-h'']) ! 1) \<and>
   events (snd (parse (help_version_parser [''prog'', ''-h'']))) = [Callback 0 (Some (BoolV True))]"
  by (simp add: help_version_parser_def clapp_defs)

subsection \<open>Converters, storage bindings and registration\<close>

text \<open>
  C8.  The boolean converter yields true exactly for the empty string, \<^verbatim>\<open>1\<close> and
  \<^verbatim>\<open>true\<close> (so \<^verbatim>\<open>false\<close>, \<^verbatim>\<open>0\<close>, \<^verbatim>\<open>no\<close> and any other text give false); the
  string converter returns its input.
\<close>

theorem TypeParser_bool_string:
  "(TypeParser_bool_Get s \<longleftrightarrow> s = [] \<or> s = ''1'' \<or> s = ''true'') \<and>
   \<not> TypeParser_bool_Get ''false'' \<and> \<not> TypeParser_bool_Get ''0'' \<and>
   \<not> TypeParser_bool_Get ''no'' \<and>
   TypeParser_string_Get s = s \<and>
   conv bool_T s = Inr (BoolV (s = [] \<or> s = ''1'' \<or> s = ''true'')) \<and>
   conv string_T s = Inr (StrV s)"
  by (simp add: TypeParser_bool_Get_def TypeParser_string_Get_def bool_T_def string_T_def)

text \<open>
  C9 (as amended).  For an option with a storage binding, a value applied by
  \<^verbatim>\<open>setValue\<close> is written into the bound storage in the same call: afterwards the bound
  storage holds the option's current value, and no other address changed.
  \<^verbatim>\<open>defaultValue\<close> changes the current value and leaves the caller's storage as it was.
\<close>

theorem setValue_writes_binding:
  assumes "m_ref opt = Some a" and "setValue value opt mem = (Inr u, opt', mem')"
  shows "(\<exists>v. Get opt value = Inr v \<and> m_value opt' = Some v \<and> mem' a = Some v) \<and>
         (\<forall>b. b \<noteq> a \<longrightarrow> mem' b = mem b) \<and>
         m_value (defaultValue d opt) = Some d \<and>
         m_ref (defaultValue d opt) = m_ref opt \<and>
         storage (on_option i (defaultValue d) p) = storage p"
  using assms
  by (auto simp: setValue_def Let_def defaultValue_def on_option_def split: sum.splits)

theorem setValue_writes_binding_witness:
  "m_value (fst (snd (setValue ''v'' (store 7 (OptionWrapper_new string_T ''-a'' [])) Map.empty)))
     = Some (StrV ''v'') \<and>
   snd (snd (setValue ''v'' (store 7 (OptionWrapper_new string_T ''-a'' [])) Map.empty)) 7
     = Some (StrV ''v'')"
proof -
  let ?opt = "store 7 (OptionWrapper_new string_T ''-a'' [])"
  let ?r = "setValue ''v'' ?opt Map.empty"
  have a: "m_ref ?opt = Some 7" by (simp add: store_def)
  have "fst ?r = Inr ()"
    by (simp add: setValue_def store_def OptionWrapper_new_def string_T_def Let_def)
  then have b: "?r = (Inr (), fst (snd ?r), snd (snd ?r))"
    by (metis prod.collapse)
  have c: "Get ?opt ''v'' = Inr (StrV ''v'')"
    by (simp add: store_def OptionWrapper_new_def string_T_def TypeParser_string_Get_def)
  from setValue_writes_binding [OF a b] c show ?thesis by auto
qed

theorem defaultValue_binding_counterexample:
  "m_ref (m_options (bound_default_parser [''prog'', ''x'']) ! 0) = Some 7 \<and>
   m_value (m_options (bound_default_parser [''prog'', ''x'']) ! 0) = Some (StrV ''abc'') \<and>
   storage (bound_default_parser [''prog'', ''x'']) 7 = Some (StrV ''old'') \<and>
   fst (parse (bound_default_parser [''prog'', ''x''])) = Inr True \<and>
   m_value (m_options (snd (parse (bound_default_parser [''prog'', ''x''])))  ! 0) = Some (StrV ''abc'') \<and>
   storage (snd (parse (bound_default_parser [''prog'', ''x''])))  7 = Some (StrV ''old'')"
  by (simp add: bound_default_parser_def clapp_defs)

text \<open>
  C7 (as amended).  Registering an option whose short and long keys are both empty raises
  the exception of the parser (the key-less descriptor is in the registry by then).
  Registering any other option never raises, whether or not one of its keys is already
  bound: each non-empty key is bound to the new descriptor, all other keys keep their
  descriptor.  So every key is bound to exactly one descriptor, the last one registered
  with it, and that descriptor is in the registry.
\<close>

theorem option_reg_keys:
  "(short = [] \<and> long = [] \<longrightarrow>
      fst (option_reg T short long p) =
        Inl (ArgumentParserException ''Short option and long option name cannot both be empty.'') \<and>
      m_options_map (snd (option_reg T short long p)) = m_options_map p) \<and>
   (short \<noteq> [] \<or> long \<noteq> [] \<longrightarrow>
      fst (option_reg T short long p) = Inr (length (m_options p)) \<and>
      (\<forall>k. m_options_map (snd (option_reg T short long p)) k =
            (if k \<noteq> [] \<and> (k = short \<or> k = long) then Some (length (m_options p))
             else m_options_map p k))) \<and>
   m_options (snd (option_reg T short long p)) = m_options p @ [OptionWrapper_new T short long] \<and>
   ((\<forall>k i. m_options_map p k = Some i \<longrightarrow> i < length (m_options p)) \<longrightarrow>
    (\<forall>k i. m_options_map (snd (option_reg T short long p)) k = Some i \<longrightarrow>
           i < length (m_options (snd (option_reg T short long p)))))"
  by (auto simp: option_reg_def Let_def less_Suc_eq split: if_splits)

theorem option_reg_keys_witness:
  "fst (option_reg string_T ''-a'' ''--all''
          (snd (option_reg string_T ''-a'' [] (ArgumentParser_new [''prog''])))) = Inr 1 \<and>
   m_options_map (snd (option_reg string_T ''-a'' ''--all''
          (snd (option_reg string_T ''-a'' [] (ArgumentParser_new [''prog'']))))) ''-a'' = Some 1 \<and>
   fst (option_reg string_T [] [] (ArgumentParser_new [''prog''])) =
      Inl (ArgumentParserException ''Short option and long option name cannot both be empty.'')"
proof -
  let ?p = "snd (option_reg string_T ''-a'' [] (ArgumentParser_new [''prog'']))"
  have len: "length (m_options ?p) = 1"
    by (simp add: option_reg_def ArgumentParser_new_def Let_def)
  from option_reg_keys [of "''-a''" "''--all''" string_T ?p] len
  have "fst (option_reg string_T ''-a'' ''--all'' ?p) = Inr 1"
    "m_options_map (snd (option_reg string_T ''-a'' ''--all'' ?p)) ''-a'' = Some 1"
    by simp_all
  moreover from option_reg_keys [of "[]" "[]" string_T "ArgumentParser_new [''prog'']"]
  have "fst (option_reg string_T [] [] (ArgumentParser_new [''prog''])) =
      Inl (ArgumentParserException ''Short option and long option name cannot both be empty.'')"
    by simp
  ultimately show ?thesis by simp
qed

theorem option_reg_duplicate_counterexample:
  "fst (option_reg string_T ''-a'' [] (ArgumentParser_new [''prog''])) = Inr 0 \<and>
   fst (option_reg string_T ''-a'' []
          (snd (option_reg string_T ''-a'' [] (ArgumentParser_new [''prog''])))) = Inr 1 \<and>
   m_options_map (snd (option_reg string_T ''-a'' []
          (snd (option_reg string_T ''-a'' [] (ArgumentParser_new [''prog'']))))) ''-a'' = Some 1"
  by (simp add: option_reg_def ArgumentParser_new_def Let_def)

subsection \<open>Missing arguments\<close>

lemma scan_n_parseArguments:
  "scan_n n p = (Inr u, q) \<Longrightarrow> parseArguments p = parseArguments q"
proof (induction n arbitrary: p)
  case 0
  then show ?case by simp
next
  case (Suc n)
  show ?case
  proof (cases "m_curr_arg p < length (m_argv p)")
    case False
    with Suc.prems show ?thesis by simp
  next
    case True
    obtain r1 p1 where b: "parseArguments_body p = (r1, p1)" by (cases "parseArguments_body p")
    with True Suc.prems obtain u1 where r1: "r1 = Inr u1" and n: "scan_n n p1 = (Inr u, q)"
      by (cases r1) auto
    from True b r1 have "parseArguments p = parseArguments p1"
      by (simp add: parseArguments.simps [of p])
    with Suc.IH [OF n] show ?thesis by simp
  qed
qed

lemma body_no_following:
  assumes "m_options_map p (current_key p) = Some idx" "idx < length (m_options p)"
    "\<not> flag (m_options p ! idx)" "following p = None"
  shows "fst (parseArguments_body p) = Inl (RuntimeError ''No more arguments.'')"
  using assms
  by (auto simp: parseArguments_body_def parseArguments_matched_def consume_def Let_def
        current_key_def following_def split: if_splits)

lemma body_following_key:
  assumes "m_options_map p (current_key p) = Some idx" "idx < length (m_options p)"
    "\<not> flag (m_options p ! idx)" "following p = Some v" "m_options_map p v \<noteq> None"
  shows "fst (parseArguments_body p) =
           Inl (ArgumentParserException
                  (''Expected argument after '' @ [CHR 0x27] @ name (m_options p ! idx)
                   @ [CHR 0x27] @ '', but none given.''))"
  using assms
  by (auto simp: parseArguments_body_def parseArguments_matched_def consume_def Let_def
        current_key_def following_def split: if_splits)

lemma parse_scan_error:
  assumes "2 \<le> length (m_argv p0)" "scan_n n p0 = (Inr u, p)"
    "m_curr_arg p < length (m_argv p)" "fst (parseArguments_body p) = Inl e"
  shows "fst (parse p0) = Inl e"
proof -
  from assms(3,4) have "fst (parseArguments p) = Inl e"
    by (cases "parseArguments_body p") (simp add: parseArguments.simps [of p])
  with scan_n_parseArguments [OF assms(2)] have "fst (parseArguments p0) = Inl e" by simp
  with assms(1) show ?thesis
    by (cases "parseArguments p0") (simp add: parse_def)
qed

text \<open>
  C4 (as amended).  The scan has reached, after some iterations, a token whose key is
  bound to a descriptor \<open>idx\<close> that is not a flag.  If no token follows, \<open>parse\<close> fails
  with the \<^verbatim>\<open>std::runtime_error\<close> "No more arguments.", which does not name the option.
  If the following token is a registered key, \<open>parse\<close> fails with the exception of the
  parser whose message names the option.
\<close>

theorem missing_argument:
  assumes "2 \<le> length (m_argv p0)" and "scan_n n p0 = (Inr u, p)"
    and "m_curr_arg p < length (m_argv p)"
    and "m_options_map p (current_key p) = Some idx" and "idx < length (m_options p)"
    and "\<not> flag (m_options p ! idx)"
  shows "(following p = None \<longrightarrow> fst (parse p0) = Inl (RuntimeError ''No more arguments.'')) \<and>
         (\<forall>v. following p = Some v \<and> m_options_map p v \<noteq> None \<longrightarrow>
            fst (parse p0) =
              Inl (ArgumentParserException
                     (''Expected argument after '' @ [CHR 0x27] @ name (m_options p ! idx)
                      @ [CHR 0x27] @ '', but none given.'')))"
  using parse_scan_error [OF assms(1-3)] body_no_following [OF assms(4-6)]
    body_following_key [OF assms(4-6)]
  by blast

theorem missing_argument_witness:
  "fst (parse (help_cfg_parser [''prog'', ''--cfg''])) = Inl (RuntimeError ''No more arguments.'') \<and>
   fst (parse (help_cfg_parser [''prog'', ''x'', ''--cfg'', ''-h''])) =
     Inl (ArgumentParserException
            (''Expected argument after '' @ [CHR 0x27] @ ''-c (--cfg)'' @ [CHR 0x27] @ '', but none given.''))"
proof -
  let ?p = "help_cfg_parser [''prog'', ''--cfg'']"
  let ?a = "help_cfg_parser [''prog'', ''x'', ''--cfg'', ''-h'']"
  let ?b = "?a\<lparr>m_curr_arg := 2\<rparr>"
  have p: "2 \<le> length (m_argv ?p)" "scan_n 0 ?p = (Inr (), ?p)" "m_curr_arg ?p < length (m_argv ?p)"
    "m_options_map ?p (current_key ?p) = Some 1" "1 < length (m_options ?p)"
    "\<not> flag (m_options ?p ! 1)" "following ?p = None"
    by (simp_all add: help_cfg_parser_def current_key_def following_def clapp_defs)
  have q1: "2 \<le> length (m_argv ?a)" by (simp add: help_cfg_parser_def clapp_defs)
  have q2: "scan_n 1 ?a = (Inr (), ?b)" by (simp add: help_cfg_parser_def clapp_defs)
  have q3: "m_curr_arg ?b < length (m_argv ?b)" by (simp add: help_cfg_parser_def clapp_defs)
  have q4: "m_options_map ?b (current_key ?b) = Some 1" by (simp add: help_cfg_parser_def current_key_def clapp_defs)
  have q5: "1 < length (m_options ?b)" by (simp add: help_cfg_parser_def clapp_defs)
  have q6: "\<not> flag (m_options ?b ! 1)" by (simp add: help_cfg_parser_def clapp_defs)
  have q7: "following ?b = Some ''-h''" by (simp add: help_cfg_parser_def following_def clapp_defs)
  have q8: "m_options_map ?b ''-h'' \<noteq> None" by (simp add: help_cfg_parser_def clapp_defs)
  have q9: "name (m_options ?b ! 1) = ''-c (--cfg)''" by (simp add: help_cfg_parser_def clapp_defs)
  note q = q1 q2 q3 q4 q5 q6 q7 q8 q9
  from missing_argument [OF p(1-6)] p(7) missing_argument [OF q(1-6)] q(7-9)
  show ?thesis by simp
qed

theorem missing_argument_counterexample:
  "m_options_map (help_cfg_parser [''prog'', ''--cfg'']) ''--cfg'' = Some 1 \<and>
   \<not> flag (m_options (help_cfg_parser [''prog'', ''--cfg'']) ! 1) \<and>
   name (m_options (help_cfg_parser [''prog'', ''--cfg'']) ! 1) = ''-c (--cfg)'' \<and>
   fst (parse (help_cfg_parser [''prog'', ''--cfg''])) = Inl (RuntimeError ''No more arguments.'')"
  by (simp add: help_cfg_parser_def clapp_defs)

subsection \<open>Required options\<close>

lemma fields_parse:
  "key_fields t = (case parseOptionWithEqualSign t of (k, None) \<Rightarrow> [k] | (k, Some v) \<Rightarrow> k # key_fields v)"
proof (induction t)
  case Nil
  then show ?case by (simp add: parseOptionWithEqualSign_def)
next
  case (Cons c cs)
  then show ?case
    by (cases "find_char (CHR ''='') cs")
       (auto simp: parseOptionWithEqualSign_def split: option.splits)
qed

lemma current_key_fields: "fst (parseOptionWithEqualSign t) \<in> set (key_fields t)"
proof (cases "parseOptionWithEqualSign t")
  case (Pair k x)
  then show ?thesis by (cases x) (simp_all add: fields_parse [of t])
qed

lemma value_fields:
  "snd (parseOptionWithEqualSign t) = Some v \<Longrightarrow> set (key_fields v) \<subseteq> set (key_fields t)"
  by (cases "parseOptionWithEqualSign t") (auto simp: fields_parse [of t])

lemma drop_inject:
  "m_curr_arg p < length (m_argv p) \<Longrightarrow>
   drop (Suc (m_curr_arg p)) (m_argv (inject value p)) =
     (case value of None \<Rightarrow> drop (Suc (m_curr_arg p)) (m_argv p)
                  | Some v \<Rightarrow> v # drop (Suc (m_curr_arg p)) (m_argv p))"
  by (simp add: inject_def split: option.splits)

lemma body_untouched:
  assumes "parseArguments_body p = (r, q)"
    and "m_options_map p (fst (parseOptionWithEqualSign (m_argv p ! m_curr_arg p))) \<noteq> Some i"
  shows "m_options q ! i = m_options p ! i"
  using assms
  by (auto simp: parseArguments_body_def Let_def matched_fields(5)
           split: option.splits if_splits prod.splits sum.splits)

lemma body_absent:
  assumes "absent i p" "m_curr_arg p < length (m_argv p)" "parseArguments_body p = (r, q)"
  shows "m_options q ! i = m_options p ! i \<and> (r = Inr () \<longrightarrow> absent i q)"
proof -
  let ?arg = "m_argv p ! m_curr_arg p"
  let ?inj = "snd (parseOptionWithEqualSign ?arg)"
  have arg: "?arg \<in> set (drop (m_curr_arg p) (m_argv p))"
    using assms(2) by (metis Cons_nth_drop_Suc list.set_intros(1))
  with assms(1) have ks: "\<forall>k \<in> set (key_fields ?arg). m_options_map p k \<noteq> Some i"
    by (simp add: absent_def)
  with current_key_fields have "m_options_map p (fst (parseOptionWithEqualSign ?arg)) \<noteq> Some i"
    by blast
  from body_untouched [OF assms(3) this] have same: "m_options q ! i = m_options p ! i" .
  have "absent i q" if "r = Inr ()"
  proof -
    from that assms(3) have b: "parseArguments_body p = (Inr (), q)" by simp
    from body_frame [OF b] have argv: "m_argv q = m_argv (inject ?inj p)"
      and curr: "m_curr_arg q = Suc (m_curr_arg p) \<or> m_curr_arg q = Suc (Suc (m_curr_arg p))"
      by simp_all
    have "set (drop (m_curr_arg q) (m_argv q)) \<subseteq> set (drop (Suc (m_curr_arg p)) (m_argv q))"
      using curr set_drop_subset_set_drop [of "Suc (m_curr_arg p)" "m_curr_arg q" "m_argv q"]
      by auto
    moreover have "\<forall>t \<in> set (drop (Suc (m_curr_arg p)) (m_argv (inject ?inj p))).
                     \<forall>k \<in> set (key_fields t). m_options_map p k \<noteq> Some i"
    proof (cases ?inj)
      case None
      have "set (drop (Suc (m_curr_arg p)) (m_argv p)) \<subseteq> set (drop (m_curr_arg p) (m_argv p))"
        by (rule set_drop_subset_set_drop) simp
      with None assms(1,2) show ?thesis by (auto simp: drop_inject absent_def)
    next
      case (Some v)
      have "set (drop (Suc (m_curr_arg p)) (m_argv p)) \<subseteq> set (drop (m_curr_arg p) (m_argv p))"
        by (rule set_drop_subset_set_drop) simp
      with Some assms(1,2) ks value_fields [OF Some] show ?thesis
        by (auto simp: drop_inject absent_def)
    qed
    ultimately show ?thesis
      using argv body_fields(1) [OF assms(3)] by (auto simp: absent_def)
  qed
  with same show ?thesis by simp
qed

lemma parseArguments_absent:
  assumes "parseArguments p = (r, p')" "absent i p"
  shows "m_options p' ! i = m_options p ! i"
  by (rule parseArguments_rule [OF assms(1), where I = "absent i"
        and R = "\<lambda>p q. m_options q ! i = m_options p ! i"])
     (simp_all add: assms(2) body_absent)

lemma checkRequired_loop_ok:
  "checkRequired_loop opts = Inr () \<longleftrightarrow> (\<forall>opt \<in> set opts. required opt \<longrightarrow> set_opt opt)"
  by (induction opts) auto

lemma checkRequired_loop_first:
  "i < length opts \<Longrightarrow> required (opts ! i) \<Longrightarrow> \<not> set_opt (opts ! i) \<Longrightarrow>
   \<forall>j < i. required (opts ! j) \<longrightarrow> set_opt (opts ! j) \<Longrightarrow>
   checkRequired_loop opts =
     Inl (ArgumentParserException
            (''Option '' @ [CHR 0x27] @ name (opts ! i) @ [CHR 0x27] @ '' is required.''))"
proof (induction opts arbitrary: i)
  case Nil
  then show ?case by simp
next
  case (Cons a opts)
  show ?case
  proof (cases i)
    case 0
    with Cons.prems show ?thesis by simp
  next
    case (Suc k)
    with Cons.prems have a: "\<not> (required a \<and> \<not> set_opt a)" by auto
    from Suc Cons.prems have "\<forall>j < k. required (opts ! j) \<longrightarrow> set_opt (opts ! j)" by auto
    with Cons.IH [of k] Suc Cons.prems a show ?thesis by auto
  qed
qed

lemma checkOverrulingOptions_none:
  "\<forall>opt \<in> set (m_options p). \<not> (set_opt opt \<and> overruling opt) \<Longrightarrow>
     checkOverrulingOptions p = (False, p)"
  using checkOverruling_loop_None [of "m_options p" 0]
  by (simp add: checkOverrulingOptions_def)

lemma parse_not_overruled:
  assumes "2 \<le> length (m_argv p)" "parseArguments p = (Inr u, p1)"
    "\<forall>opt \<in> set (m_options p1). \<not> (set_opt opt \<and> overruling opt)"
  shows "parse p = (case checkRequired_loop (m_options p1) of
                      Inl e \<Rightarrow> (Inl e, p1) | Inr u \<Rightarrow> (Inr True, invokeCallbacks p1))"
  using assms checkOverrulingOptions_none [OF assms(3)]
  by (simp add: parse_def checkRequiredOptions_def)

lemma parse_true_required:
  assumes "fst (parse p) = Inr True"
  shows "\<exists>u p1. parseArguments p = (Inr u, p1) \<and>
           (\<forall>opt \<in> set (m_options p1). required opt \<longrightarrow> set_opt opt)"
proof -
  obtain r p1 where run: "parseArguments p = (r, p1)" by (cases "parseArguments p")
  from assms run have "checkRequired_loop (m_options p1) = Inr ()" "\<exists>u. r = Inr u"
    by (auto simp: parse_def checkRequiredOptions_def checkOverrulingOptions_def
             split: if_splits sum.splits option.splits)
  with run show ?thesis by (auto simp: checkRequired_loop_ok)
qed

text \<open>
  C5 (as amended).  Let a required option be absent from the input.  Without a default
  value (not set before the parse), \<open>parse\<close> never reports success; when the argument
  vector has at least two entries, the scan raises no exception, no overruling option is
  set and no required option declared earlier is missing, it raises the missing-required
  exception naming the option.  With a default value \<open>d\<close>, under the same conditions and
  with every other required option set, \<open>parse\<close> reports success and the option holds \<open>d\<close>.
\<close>

theorem required_option:
  assumes "i < length (m_options p)" and "required (m_options p ! i)" and "absent i p"
  shows "(\<not> set_opt (m_options p ! i) \<longrightarrow> fst (parse p) \<noteq> Inr True) \<and>
         (\<not> set_opt (m_options p ! i) \<and> 2 \<le> length (m_argv p) \<and>
          fst (parseArguments p) = Inr () \<and>
          (\<forall>opt \<in> set (m_options (snd (parseArguments p))). \<not> (set_opt opt \<and> overruling opt)) \<and>
          (\<forall>j < i. required (m_options (snd (parseArguments p)) ! j) \<longrightarrow>
                   set_opt (m_options (snd (parseArguments p)) ! j)) \<longrightarrow>
            fst (parse p) =
              Inl (ArgumentParserException
                     (''Option '' @ [CHR 0x27] @ name (m_options p ! i) @ [CHR 0x27]
                      @ '' is required.''))) \<and>
         (m_options p ! i = defaultValue d opt \<and> 2 \<le> length (m_argv p) \<and>
          fst (parseArguments p) = Inr () \<and>
          (\<forall>opt \<in> set (m_options (snd (parseArguments p))). \<not> (set_opt opt \<and> overruling opt)) \<and>
          (\<forall>j < length (m_options p). j \<noteq> i \<longrightarrow>
                   required (m_options (snd (parseArguments p)) ! j) \<longrightarrow>
                   set_opt (m_options (snd (parseArguments p)) ! j)) \<longrightarrow>
            fst (parse p) = Inr True \<and>
            m_value (m_options (snd (parse p)) ! i) = Some d)"
proof -
  let ?p1 = "snd (parseArguments p)"
  have same: "m_options ?p1 ! i = m_options p ! i"
    by (rule parseArguments_absent [OF prod.collapse [symmetric] assms(3)])
  have len: "length (m_options ?p1) = length (m_options p)"
    by (rule parseArguments_fields(3) [OF prod.collapse [symmetric]])
  have a1: "fst (parse p) \<noteq> Inr True" if "\<not> set_opt (m_options p ! i)"
  proof
    assume "fst (parse p) = Inr True"
    from parse_true_required [OF this]
    have "\<forall>opt \<in> set (m_options ?p1). required opt \<longrightarrow> set_opt opt" by auto
    moreover have "m_options ?p1 ! i \<in> set (m_options ?p1)" using assms(1) len by simp
    ultimately show False using same assms(2) that by auto
  qed
  have a2: "fst (parse p) =
              Inl (ArgumentParserException
                     (''Option '' @ [CHR 0x27] @ name (m_options p ! i) @ [CHR 0x27]
                      @ '' is required.''))"
    if "\<not> set_opt (m_options p ! i)" "2 \<le> length (m_argv p)" "fst (parseArguments p) = Inr ()"
      "\<forall>opt \<in> set (m_options ?p1). \<not> (set_opt opt \<and> overruling opt)"
      "\<forall>j < i. required (m_options ?p1 ! j) \<longrightarrow> set_opt (m_options ?p1 ! j)"
  proof -
    from that(3) have run: "parseArguments p = (Inr (), ?p1)" by (metis prod.collapse)
    from checkRequired_loop_first [of i "m_options ?p1"] assms(1,2) len same that(1,5)
    have "checkRequired_loop (m_options ?p1) =
       Inl (ArgumentParserException
              (''Option '' @ [CHR 0x27] @ name (m_options p ! i) @ [CHR 0x27] @ '' is required.''))"
      by simp
    with parse_not_overruled [OF that(2) run that(4)] show ?thesis by simp
  qed
  have b: "fst (parse p) = Inr True \<and> m_value (m_options (snd (parse p)) ! i) = Some d"
    if "m_options p ! i = defaultValue d opt" "2 \<le> length (m_argv p)"
      "fst (parseArguments p) = Inr ()"
      "\<forall>opt \<in> set (m_options ?p1). \<not> (set_opt opt \<and> overruling opt)"
      "\<forall>j < length (m_options p). j \<noteq> i \<longrightarrow>
           required (m_options ?p1 ! j) \<longrightarrow> set_opt (m_options ?p1 ! j)"
  proof -
    from that(3) have run: "parseArguments p = (Inr (), ?p1)" by (metis prod.collapse)
    from that(1) same have i: "set_opt (m_options ?p1 ! i)" "m_value (m_options ?p1 ! i) = Some d"
      by (simp_all add: defaultValue_def)
    have "\<forall>opt \<in> set (m_options ?p1). required opt \<longrightarrow> set_opt opt"
    proof
      fix x assume "x \<in> set (m_options ?p1)"
      then obtain j where "j < length (m_options ?p1)" "x = m_options ?p1 ! j"
        by (auto simp: in_set_conv_nth)
      with that(5) i(1) len show "required x \<longrightarrow> set_opt x" by (cases "j = i") auto
    qed
    then have "checkRequired_loop (m_options ?p1) = Inr ()" by (simp add: checkRequired_loop_ok)
    with parse_not_overruled [OF that(2) run that(4)] i(2) show ?thesis
      by (simp add: invokeCallbacks_def)
  qed
  from a1 a2 b show ?thesis by blast
qed

theorem required_option_witness:
  "fst (parse (required_parser None [''prog'', ''-b'', ''x''])) =
     Inl (ArgumentParserException (''Option '' @ [CHR 0x27] @ ''-a'' @ [CHR 0x27] @ '' is required.'')) \<and>
   fst (parse (required_parser (Some (StrV ''abc'')) [''prog'', ''-b'', ''x''])) = Inr True \<and>
   m_value (m_options (snd (parse (required_parser (Some (StrV ''abc'')) [''prog'', ''-b'', ''x'']))) ! 0)
     = Some (StrV ''abc'')"
proof -
  let ?a = "required_parser None [''prog'', ''-b'', ''x'']"
  let ?b = "required_parser (Some (StrV ''abc'')) [''prog'', ''-b'', ''x'']"
  let ?opt = "required_set (OptionWrapper_new string_T ''-a'' [])"
  have a: "0 < length (m_options ?a)" "required (m_options ?a ! 0)" "absent 0 ?a"
    by (simp_all add: required_parser_def absent_def clapp_defs)
  have a': "\<not> set_opt (m_options ?a ! 0)" "2 \<le> length (m_argv ?a)"
      "fst (parseArguments ?a) = Inr ()"
      "\<forall>opt \<in> set (m_options (snd (parseArguments ?a))). \<not> (set_opt opt \<and> overruling opt)"
      "name (m_options ?a ! 0) = ''-a''"
    by (simp_all add: required_parser_def clapp_defs)
  have b: "0 < length (m_options ?b)" "required (m_options ?b ! 0)" "absent 0 ?b"
    by (simp_all add: required_parser_def absent_def clapp_defs)
  have b': "m_options ?b ! 0 = defaultValue (StrV ''abc'') ?opt" "2 \<le> length (m_argv ?b)"
      "fst (parseArguments ?b) = Inr ()"
      "\<forall>opt \<in> set (m_options (snd (parseArguments ?b))). \<not> (set_opt opt \<and> overruling opt)"
    by (simp_all add: required_parser_def clapp_defs)
  have b'': "\<forall>j < length (m_options ?b). j \<noteq> 0 \<longrightarrow>
               required (m_options (snd (parseArguments ?b)) ! j) \<longrightarrow>
               set_opt (m_options (snd (parseArguments ?b)) ! j)"
    by (simp add: required_parser_def clapp_defs less_Suc_eq)
  from required_option [OF a, of "StrV ''abc''" ?opt] a'
  have "fst (parse ?a) =
     Inl (ArgumentParserException (''Option '' @ [CHR 0x27] @ ''-a'' @ [CHR 0x27] @ '' is required.''))"
    by simp
  moreover from required_option [OF b, of "StrV ''abc''" ?opt] b' b''
  have "fst (parse ?b) = Inr True \<and> m_value (m_options (snd (parse ?b)) ! 0) = Some (StrV ''abc'')"
    by blast
  ultimately show ?thesis by simp
qed

theorem required_option_counterexample:
  "required (m_options (required_parser (Some (StrV ''abc'')) [''prog'']) ! 0) \<and>
   has_default_value (m_options (required_parser (Some (StrV ''abc'')) [''prog'']) ! 0) \<and>
   fst (parse (required_parser (Some (StrV ''abc'')) [''prog''])) = Inr False \<and>
   fst (parse (required_parser (Some (StrV ''abc'')) [''prog'', ''-b''])) =
     Inl (RuntimeError ''No more arguments.'') \<and>
   fst (parse (required_parser (Some (StrV ''abc'')) [''prog'', ''-h''])) = Inr False \<and>
   required (m_options (required_parser None [''prog'']) ! 0) \<and>
   \<not> has_default_value (m_options (required_parser None [''prog'']) ! 0) \<and>
   fst (parse (required_parser None [''prog''])) = Inr False \<and>
   events (snd (parse (required_parser None [''prog'']))) = [PrintHelp]"
  by (simp add: required_parser_def clapp_defs)

subsection \<open>The scan reads only the tokens from the cursor on\<close>

lemma remaining_Nil: "remaining p = [] \<longleftrightarrow> \<not> m_curr_arg p < length (m_argv p)"
  by (auto simp: remaining_def)

lemma remaining_hd: "m_curr_arg p < length (m_argv p) \<Longrightarrow> m_argv p ! m_curr_arg p = hd (remaining p)"
  by (simp add: remaining_def hd_drop_conv_nth)

lemma remaining_Suc: "remaining (p\<lparr>m_curr_arg := Suc (m_curr_arg p)\<rparr>) = tl (remaining p)"
  by (simp add: remaining_def drop_Suc drop_tl)

lemma drop_insert_after:
  assumes "c < length xs"
  shows "drop c (take (Suc c) xs) @ v # drop (Suc c) xs = hd (drop c xs) # v # tl (drop c xs)"
proof -
  have "take (Suc c) xs = take c xs @ [xs ! c]"
    using assms by (rule take_Suc_conv_app_nth)
  then have "drop c (take (Suc c) xs) = [xs ! c]"
    using assms by simp
  moreover have "hd (drop c xs) = xs ! c" using assms by (rule hd_drop_conv_nth)
  moreover have "tl (drop c xs) = drop (Suc c) xs" by (simp only: drop_Suc drop_tl)
  ultimately show ?thesis by simp
qed

lemma remaining_inject:
  "m_curr_arg p < length (m_argv p) \<Longrightarrow>
     remaining (inject x p) =
       (case x of None \<Rightarrow> remaining p | Some v \<Rightarrow> hd (remaining p) # v # tl (remaining p))"
  by (cases x) (simp_all add: remaining_def inject_def drop_insert_after)

lemma visible_inject [simp]: "visible (inject x p) = visible p"
  by (simp add: visible_def)

lemma call_setValue_sim:
  assumes "visible p = visible q"
  shows "fst (call_setValue v idx p) = fst (call_setValue v idx q)"
    "visible (snd (call_setValue v idx p)) = visible (snd (call_setValue v idx q))"
    "remaining (snd (call_setValue v idx p)) = remaining p"
  using assms
  by (auto simp: call_setValue_def visible_def remaining_def split: prod.splits)

lemma consume_remaining:
  "consume p =
     (if tl (remaining p) = []
      then (Inl (RuntimeError ''No more arguments.''), p\<lparr>m_curr_arg := Suc (m_curr_arg p)\<rparr>)
      else (Inr (hd (tl (remaining p))), p\<lparr>m_curr_arg := Suc (m_curr_arg p)\<rparr>))"
  using remaining_Nil [of "p\<lparr>m_curr_arg := Suc (m_curr_arg p)\<rparr>"]
    remaining_hd [of "p\<lparr>m_curr_arg := Suc (m_curr_arg p)\<rparr>"]
  by (auto simp: consume_def Let_def remaining_Suc)

lemma matched_sim:
  assumes "visible p = visible q" "tl (remaining p) = tl (remaining q)"
    "remaining p \<noteq> []" "remaining q \<noteq> []"
  shows "fst (parseArguments_matched idx p) = fst (parseArguments_matched idx q) \<and>
         visible (snd (parseArguments_matched idx p)) = visible (snd (parseArguments_matched idx q)) \<and>
         tl (remaining (snd (parseArguments_matched idx p))) =
           tl (remaining (snd (parseArguments_matched idx q)))"
proof -
  let ?p = "p\<lparr>m_curr_arg := Suc (m_curr_arg p)\<rparr>" and ?q = "q\<lparr>m_curr_arg := Suc (m_curr_arg q)\<rparr>"
  have vis: "visible ?p = visible ?q" using assms(1) by (simp add: visible_def)
  have rem: "remaining ?p = remaining ?q" using assms(2) by (simp add: remaining_Suc)
  from assms(1) have fields: "m_options p = m_options q" "m_options_map p = m_options_map q"
    by (simp_all add: visible_def)
  show ?thesis
  proof (cases "flag (m_options p ! idx)")
    case True
    with fields call_setValue_sim [OF assms(1), of "[]" idx] call_setValue_sim(3) [of q q "[]" idx]
      assms(2) show ?thesis
      by (simp add: parseArguments_matched_def)
  next
    case False
    with fields vis rem assms(2) call_setValue_sim [OF vis, of "hd (tl (remaining q))" idx]
      call_setValue_sim(3) [of ?q ?q "hd (tl (remaining q))" idx]
    show ?thesis
      by (simp add: parseArguments_matched_def consume_remaining)
  qed
qed

lemma body_sim:
  assumes vis: "visible p = visible q" and ne: "remaining p \<noteq> []" "remaining q \<noteq> []"
    and key: "fst (parseOptionWithEqualSign (hd (remaining p))) =
              fst (parseOptionWithEqualSign (hd (remaining q)))"
    and tails: "tl (remaining (inject (snd (parseOptionWithEqualSign (hd (remaining p)))) p)) =
                tl (remaining (inject (snd (parseOptionWithEqualSign (hd (remaining q)))) q))"
  shows "fst (parseArguments_body p) = fst (parseArguments_body q) \<and>
         visible (snd (parseArguments_body p)) = visible (snd (parseArguments_body q)) \<and>
         (fst (parseArguments_body p) = Inr () \<longrightarrow>
            remaining (snd (parseArguments_body p)) = remaining (snd (parseArguments_body q)))"
proof -
  let ?p1 = "inject (snd (parseOptionWithEqualSign (hd (remaining p)))) p"
  let ?q1 = "inject (snd (parseOptionWithEqualSign (hd (remaining q)))) q"
  let ?k = "fst (parseOptionWithEqualSign (hd (remaining p)))"
  from ne have lt: "m_curr_arg p < length (m_argv p)" "m_curr_arg q < length (m_argv q)"
    by (simp_all add: remaining_Nil)
  have vis1: "visible ?p1 = visible ?q1" using vis by simp
  then have f: "m_options ?p1 = m_options ?q1" "m_options_map ?p1 = m_options_map ?q1"
    by (simp_all add: visible_def)
  have ne1: "remaining ?p1 \<noteq> []" "remaining ?q1 \<noteq> []"
    using lt ne by (simp_all add: remaining_inject split: option.splits)
  have bp: "parseArguments_body p =
     (case m_options_map ?p1 ?k of
        None \<Rightarrow> (Inr (), ?p1\<lparr>m_curr_arg := m_curr_arg ?p1 + 1\<rparr>)
      | Some idx \<Rightarrow>
          (if length (m_options ?p1) \<le> idx then (Inl OutOfRange, ?p1)
           else (case parseArguments_matched idx ?p1 of
                   (Inl e, p2) \<Rightarrow> (Inl e, p2)
                 | (Inr u, p2) \<Rightarrow>
                     (Inr (), p2\<lparr>m_option_order := m_option_order p2 @ [idx],
                                 m_curr_arg := m_curr_arg p2 + 1\<rparr>))))"
    using lt(1) by (simp add: parseArguments_body_def Let_def remaining_hd)
  have bq: "parseArguments_body q =
     (case m_options_map ?q1 ?k of
        None \<Rightarrow> (Inr (), ?q1\<lparr>m_curr_arg := m_curr_arg ?q1 + 1\<rparr>)
      | Some idx \<Rightarrow>
          (if length (m_options ?q1) \<le> idx then (Inl OutOfRange, ?q1)
           else (case parseArguments_matched idx ?q1 of
                   (Inl e, p2) \<Rightarrow> (Inl e, p2)
                 | (Inr u, p2) \<Rightarrow>
                     (Inr (), p2\<lparr>m_option_order := m_option_order p2 @ [idx],
                                 m_curr_arg := m_curr_arg p2 + 1\<rparr>))))"
    using lt(2) key by (simp add: parseArguments_body_def Let_def remaining_hd)
  show ?thesis
  proof (cases "m_options_map ?p1 ?k")
    case None
    with f have "m_options_map ?q1 ?k = None" by simp
    with None bp bq vis tails show ?thesis
      by (simp add: remaining_Suc [of ?p1, simplified] remaining_Suc [of ?q1, simplified]
            visible_def)
  next
    case (Some idx)
    with f have Some': "m_options_map ?q1 ?k = Some idx" by simp
    show ?thesis
    proof (cases "length (m_options ?p1) \<le> idx")
      case True
      with Some Some' bp bq f vis1 show ?thesis by simp
    next
      case False
      obtain rp p2 where mp: "parseArguments_matched idx ?p1 = (rp, p2)"
        by (cases "parseArguments_matched idx ?p1")
      obtain rq q2 where mq: "parseArguments_matched idx ?q1 = (rq, q2)"
        by (cases "parseArguments_matched idx ?q1")
      from matched_sim [OF vis1 tails ne1, of idx] mp mq
      have r: "rp = rq" and v2: "visible p2 = visible q2"
        and t2: "tl (remaining p2) = tl (remaining q2)"
        by simp_all
      from v2 have v3: "visible (p2\<lparr>m_option_order := m_option_order p2 @ [idx],
                                   m_curr_arg := Suc (m_curr_arg p2)\<rparr>) =
                        visible (q2\<lparr>m_option_order := m_option_order q2 @ [idx],
                                   m_curr_arg := Suc (m_curr_arg q2)\<rparr>)"
        by (simp add: visible_def)
      from t2 have t3: "remaining (p2\<lparr>m_option_order := m_option_order p2 @ [idx],
                                   m_curr_arg := Suc (m_curr_arg p2)\<rparr>) =
                        remaining (q2\<lparr>m_option_order := m_option_order q2 @ [idx],
                                   m_curr_arg := Suc (m_curr_arg q2)\<rparr>)"
        by (simp add: remaining_def drop_Suc drop_tl)
      from False f have False': "\<not> length (m_options ?q1) \<le> idx" by simp
      show ?thesis
      proof (cases rp)
        case (Inl e)
        from mp Inl have mp': "parseArguments_matched idx ?p1 = (Inl e, p2)" by simp
        from mq r Inl have mq': "parseArguments_matched idx ?q1 = (Inl e, q2)" by simp
        from mp' mq' Some Some' False False' bp bq v2 show ?thesis by simp
      next
        case (Inr u)
        from mp Inr have mp': "parseArguments_matched idx ?p1 = (Inr (), p2)" by simp
        from mq r Inr have mq': "parseArguments_matched idx ?q1 = (Inr (), q2)" by simp
        from mp' mq' Some Some' False False' bp bq v3 t3 show ?thesis by simp
      qed
    qed
  qed
qed

lemma parseArguments_sim:
  "visible p = visible q \<Longrightarrow> remaining p = remaining q \<Longrightarrow>
     fst (parseArguments p) = fst (parseArguments q) \<and>
     visible (snd (parseArguments p)) = visible (snd (parseArguments q))"
proof (induction p arbitrary: q rule: parseArguments.induct)
  case (1 p)
  show ?case
  proof (cases "m_curr_arg p < length (m_argv p)")
    case False
    with "1.prems" have "\<not> m_curr_arg q < length (m_argv q)"
      using remaining_Nil [of p] remaining_Nil [of q] by simp
    with False "1.prems" show ?thesis
      by (simp add: parseArguments.simps [of p] parseArguments.simps [of q])
  next
    case True
    with "1.prems" have Tq: "m_curr_arg q < length (m_argv q)"
      using remaining_Nil [of p] remaining_Nil [of q] by simp
    from True Tq have ne: "remaining p \<noteq> []" "remaining q \<noteq> []"
      by (simp_all add: remaining_Nil)
    have tails: "tl (remaining (inject (snd (parseOptionWithEqualSign (hd (remaining p)))) p)) =
                 tl (remaining (inject (snd (parseOptionWithEqualSign (hd (remaining q)))) q))"
      using True Tq "1.prems"(2) by (simp add: remaining_inject split: option.splits)
    from body_sim [OF "1.prems"(1) ne _ tails] "1.prems"(2)
    have b: "fst (parseArguments_body p) = fst (parseArguments_body q)"
      "visible (snd (parseArguments_body p)) = visible (snd (parseArguments_body q))"
      "fst (parseArguments_body p) = Inr () \<Longrightarrow>
         remaining (snd (parseArguments_body p)) = remaining (snd (parseArguments_body q))"
      by simp_all
    obtain rp p1 where bp: "parseArguments_body p = (rp, p1)" by (cases "parseArguments_body p")
    obtain rq q1 where bq: "parseArguments_body q = (rq, q1)" by (cases "parseArguments_body q")
    from b(1) bp bq have req: "rq = rp" by simp
    from b(2) bp bq have v1: "visible p1 = visible q1" by simp
    show ?thesis
    proof (cases rp)
      case (Inl e)
      have "parseArguments p = (Inl e, p1)" using True bp Inl
        by (simp add: parseArguments.simps [of p])
      moreover have "parseArguments q = (Inl e, q1)" using Tq bq req Inl
        by (simp add: parseArguments.simps [of q])
      ultimately show ?thesis using v1 by simp
    next
      case (Inr u)
      from b(3) bp bq Inr have r1: "remaining p1 = remaining q1" by simp
      have "parseArguments p = parseArguments p1" using True bp Inr
        by (simp add: parseArguments.simps [of p])
      moreover have "parseArguments q = parseArguments q1" using Tq bq req Inr
        by (simp add: parseArguments.simps [of q])
      ultimately show ?thesis
        using "1.IH" [OF True bp [symmetric] Inr v1 r1] by simp
    qed
  qed
qed

subsection \<open>Tokens of the form option=value\<close>

lemma find_char_append:
  "c \<notin> set k \<Longrightarrow> find_char c (k @ c # v) = Some (length k)"
  by (induction k) auto

lemma parseOptionWithEqualSign_split:
  "CHR ''='' \<notin> set k \<Longrightarrow> parseOptionWithEqualSign (k @ CHR ''='' # v) = (k, Some v)"
  by (simp add: parseOptionWithEqualSign_def find_char_append)

lemma parseOptionWithEqualSign_plain:
  "CHR ''='' \<notin> set k \<Longrightarrow> parseOptionWithEqualSign k = (k, None)"
  using find_char_None [of "CHR ''=''" k] by (simp add: parseOptionWithEqualSign_def)

lemma parseArguments_step_sim:
  assumes vis: "visible p = visible q" and ne: "remaining p \<noteq> []" "remaining q \<noteq> []"
    and key: "fst (parseOptionWithEqualSign (hd (remaining p))) =
              fst (parseOptionWithEqualSign (hd (remaining q)))"
    and tails: "tl (remaining (inject (snd (parseOptionWithEqualSign (hd (remaining p)))) p)) =
                tl (remaining (inject (snd (parseOptionWithEqualSign (hd (remaining q)))) q))"
  shows "fst (parseArguments p) = fst (parseArguments q) \<and>
         visible (snd (parseArguments p)) = visible (snd (parseArguments q))"
proof -
  from ne have lt: "m_curr_arg p < length (m_argv p)" "m_curr_arg q < length (m_argv q)"
    by (simp_all add: remaining_Nil)
  from body_sim [OF vis ne key tails]
  have b: "fst (parseArguments_body p) = fst (parseArguments_body q)"
    "visible (snd (parseArguments_body p)) = visible (snd (parseArguments_body q))"
    "fst (parseArguments_body p) = Inr () \<Longrightarrow>
       remaining (snd (parseArguments_body p)) = remaining (snd (parseArguments_body q))"
    by simp_all
  obtain rp p1 where bp: "parseArguments_body p = (rp, p1)" by (cases "parseArguments_body p")
  obtain rq q1 where bq: "parseArguments_body q = (rq, q1)" by (cases "parseArguments_body q")
  from b(1) bp bq have req: "rq = rp" by simp
  from b(2) bp bq have v1: "visible p1 = visible q1" by simp
  show ?thesis
  proof (cases rp)
    case (Inl e)
    have "parseArguments p = (Inl e, p1)" using lt(1) bp Inl
      by (simp add: parseArguments.simps [of p])
    moreover have "parseArguments q = (Inl e, q1)" using lt(2) bq req Inl
      by (simp add: parseArguments.simps [of q])
    ultimately show ?thesis using v1 by simp
  next
    case (Inr u)
    from b(3) bp bq Inr have r1: "remaining p1 = remaining q1" by simp
    have "parseArguments p = parseArguments p1" using lt(1) bp Inr
      by (simp add: parseArguments.simps [of p])
    moreover have "parseArguments q = parseArguments q1" using lt(2) bq req Inr
      by (simp add: parseArguments.simps [of q])
    ultimately show ?thesis using parseArguments_sim [OF v1 r1] by simp
  qed
qed

lemma checkOverrulingOptions_visible:
  "visible p = visible q \<Longrightarrow>
     fst (checkOverrulingOptions p) = fst (checkOverrulingOptions q) \<and>
     visible (snd (checkOverrulingOptions p)) = visible (snd (checkOverrulingOptions q))"
  by (auto simp: checkOverrulingOptions_def visible_def split: option.splits)

lemma parse_visible:
  assumes "2 \<le> length (m_argv p)" "2 \<le> length (m_argv q)"
    and "fst (parseArguments p) = fst (parseArguments q)"
    and "visible (snd (parseArguments p)) = visible (snd (parseArguments q))"
  shows "fst (parse p) = fst (parse q) \<and> visible (snd (parse p)) = visible (snd (parse q))"
proof -
  obtain r p1 where rp: "parseArguments p = (r, p1)" by (cases "parseArguments p")
  obtain r' q1 where rq: "parseArguments q = (r', q1)" by (cases "parseArguments q")
  from assms(3,4) rp rq have r: "r' = r" and v: "visible p1 = visible q1" by simp_all
  obtain b p2 where op: "checkOverrulingOptions p1 = (b, p2)" by (cases "checkOverrulingOptions p1")
  obtain b' q2 where oq: "checkOverrulingOptions q1 = (b', q2)" by (cases "checkOverrulingOptions q1")
  from checkOverrulingOptions_visible [OF v] op oq
  have b: "b' = b" and v2: "visible p2 = visible q2" by simp_all
  from v2 have c: "checkRequiredOptions p2 = checkRequiredOptions q2"
    "visible (invokeCallbacks p2) = visible (invokeCallbacks q2)"
    by (simp_all add: checkRequiredOptions_def invokeCallbacks_def visible_def)
  show ?thesis
  proof (cases r)
    case (Inl e)
    with assms(1,2) rp rq r v show ?thesis by (simp add: parse_def)
  next
    case (Inr u)
    with assms(1,2) rp rq r op oq b v2 c show ?thesis
      by (cases b; cases "checkRequiredOptions q2") (simp_all add: parse_def)
  qed
qed

lemma body_stores:
  assumes "m_curr_arg p < length (m_argv p)"
    and "m_options_map p (current_key p) = Some idx" and "idx < length (m_options p)"
    and "\<not> flag (m_options p ! idx)" and "following p = Some v" and "m_options_map p v = None"
    and "Get (m_options p ! idx) v = Inr x"
  shows "fst (parseArguments_body p) = Inr () \<and>
         m_value (m_options (snd (parseArguments_body p)) ! idx) = Some x \<and>
         set_opt (m_options (snd (parseArguments_body p)) ! idx) \<and>
         m_option_order (snd (parseArguments_body p)) = m_option_order p @ [idx] \<and>
         (\<forall>a. m_ref (m_options p ! idx) = Some a \<longrightarrow>
              storage (snd (parseArguments_body p)) a = Some x)"
  using assms
  by (auto simp: parseArguments_body_def parseArguments_matched_def consume_def Let_def
        current_key_def following_def call_setValue_def setValue_def
        split: if_splits option.splits)

lemma two_tokens_sim:
  assumes "m_curr_arg p < length (m_argv p)"
    and "m_argv p ! m_curr_arg p = k @ CHR ''='' # v" and "CHR ''='' \<notin> set k"
  shows "remaining p = (k @ CHR ''='' # v) # tl (remaining p)"
    "remaining (two_tokens k v p) = k # v # tl (remaining p)"
    "visible (two_tokens k v p) = visible p"
    "m_curr_arg (two_tokens k v p) < length (m_argv (two_tokens k v p))"
    "m_argv (two_tokens k v p) ! m_curr_arg (two_tokens k v p) = k"
proof -
  from assms(1) have "remaining p \<noteq> []" by (simp add: remaining_Nil)
  with remaining_hd [OF assms(1)] assms(2)
  show "remaining p = (k @ CHR ''='' # v) # tl (remaining p)"
    by (cases "remaining p") simp_all
  show r: "remaining (two_tokens k v p) = k # v # tl (remaining p)"
    using assms(1) by (simp add: remaining_def two_tokens_def drop_Suc drop_tl)
  show "visible (two_tokens k v p) = visible p" by (simp add: visible_def two_tokens_def)
  show lt: "m_curr_arg (two_tokens k v p) < length (m_argv (two_tokens k v p))"
    using assms(1) by (simp add: two_tokens_def)
  from remaining_hd [OF lt] r show "m_argv (two_tokens k v p) ! m_curr_arg (two_tokens k v p) = k"
    by simp
qed

text \<open>
  C2.  The scan stands at a token \<^verbatim>\<open>k=v\<close> whose part \<open>k\<close> before the first \<^verbatim>\<open>=\<close> has
  no \<^verbatim>\<open>=\<close>.  The token is split into \<open>k\<close> and \<open>v\<close> and \<open>v\<close> becomes the following
  token.  Parsing goes on exactly as on the argument vector that has the two tokens \<open>k\<close>
  and \<open>v\<close> in its place: the same outcome (the same exception, or the same result), the
  same descriptors, invocation record, caller storage and callbacks; and a named
  non-flag option \<open>k\<close> stores the same converted value in both.  The same holds for
  two whole argument vectors whose scans reach these two states.
\<close>

theorem equal_sign_as_two_tokens:
  assumes "1 \<le> m_curr_arg p" and "m_curr_arg p < length (m_argv p)"
    and "m_argv p ! m_curr_arg p = k @ CHR ''='' # v" and "CHR ''='' \<notin> set k"
  shows "parseOptionWithEqualSign (k @ CHR ''='' # v) = (k, Some v) \<and>
         current_key p = k \<and> following p = Some v \<and>
         current_key (two_tokens k v p) = k \<and> following (two_tokens k v p) = Some v \<and>
         fst (parse p) = fst (parse (two_tokens k v p)) \<and>
         visible (snd (parse p)) = visible (snd (parse (two_tokens k v p))) \<and>
         (\<forall>idx x. m_options_map p k = Some idx \<and> idx < length (m_options p) \<and>
                  \<not> flag (m_options p ! idx) \<and> m_options_map p v = None \<and>
                  Get (m_options p ! idx) v = Inr x \<longrightarrow>
            m_value (m_options (snd (parseArguments_body p)) ! idx) = Some x \<and>
            m_value (m_options (snd (parseArguments_body (two_tokens k v p))) ! idx) = Some x) \<and>
         (\<forall>p0 q0 n m. 2 \<le> length (m_argv p0) \<and> 2 \<le> length (m_argv q0) \<and>
                  scan_n n p0 = (Inr (), p) \<and> scan_n m q0 = (Inr (), two_tokens k v p) \<longrightarrow>
            fst (parse p0) = fst (parse q0) \<and> visible (snd (parse p0)) = visible (snd (parse q0)))"
proof -
  let ?q = "two_tokens k v p"
  note s = two_tokens_sim [OF assms(2-4)]
  have split: "parseOptionWithEqualSign (k @ CHR ''='' # v) = (k, Some v)"
    by (rule parseOptionWithEqualSign_split [OF assms(4)])
  have plain: "parseOptionWithEqualSign k = (k, None)"
    by (rule parseOptionWithEqualSign_plain [OF assms(4)])
  have ne: "remaining p \<noteq> []" "remaining ?q \<noteq> []"
    using s(1,2) by (metis list.distinct(1))+
  have hd: "hd (remaining p) = k @ CHR ''='' # v" "hd (remaining ?q) = k"
    using s(1,2) by (metis list.sel(1))+
  have keyp: "current_key p = k" using assms(3) split by (simp add: current_key_def)
  have keyq: "current_key ?q = k" using s(5) plain by (simp add: current_key_def)
  have rp: "remaining (inject (Some v) p) = (k @ CHR ''='' # v) # v # tl (remaining p)"
    using remaining_inject [OF assms(2), of "Some v"] hd(1) by simp
  have rq: "remaining (inject None ?q) = k # v # tl (remaining p)"
    using remaining_inject [OF s(4), of None] s(2) by simp
  have folp: "following p = Some v"
    using assms(2,3) split rp remaining_Nil [of "(inject (Some v) p)\<lparr>m_curr_arg := Suc (m_curr_arg p)\<rparr>"]
      remaining_hd [of "(inject (Some v) p)\<lparr>m_curr_arg := Suc (m_curr_arg p)\<rparr>"]
      remaining_Suc [of "inject (Some v) p"]
    by (auto simp: following_def Let_def)
  have folq: "following ?q = Some v"
    using s(4,5) plain rq remaining_Nil [of "(inject None ?q)\<lparr>m_curr_arg := Suc (m_curr_arg ?q)\<rparr>"]
      remaining_hd [of "(inject None ?q)\<lparr>m_curr_arg := Suc (m_curr_arg ?q)\<rparr>"]
      remaining_Suc [of "inject None ?q"]
    by (auto simp: following_def Let_def)
  have scan: "fst (parseArguments p) = fst (parseArguments ?q) \<and>
              visible (snd (parseArguments p)) = visible (snd (parseArguments ?q))"
  proof (rule parseArguments_step_sim [OF s(3) [symmetric] ne])
    show "fst (parseOptionWithEqualSign (hd (remaining p))) =
          fst (parseOptionWithEqualSign (hd (remaining ?q)))"
      using hd split plain by simp
    show "tl (remaining (inject (snd (parseOptionWithEqualSign (hd (remaining p)))) p)) =
          tl (remaining (inject (snd (parseOptionWithEqualSign (hd (remaining ?q)))) ?q))"
      using hd split plain rp rq by simp
  qed
  have len: "2 \<le> length (m_argv p)" "2 \<le> length (m_argv ?q)"
    using assms(1,2) by (simp_all add: two_tokens_def)
  from parse_visible [OF len] scan
  have whole: "fst (parse p) = fst (parse ?q)" "visible (snd (parse p)) = visible (snd (parse ?q))"
    by simp_all
  have opts: "m_options ?q = m_options p" "m_options_map ?q = m_options_map p"
    by (simp_all add: two_tokens_def)
  have stored: "m_value (m_options (snd (parseArguments_body p)) ! idx) = Some x \<and>
            m_value (m_options (snd (parseArguments_body ?q)) ! idx) = Some x"
    if "m_options_map p k = Some idx" "idx < length (m_options p)"
       "\<not> flag (m_options p ! idx)" "m_options_map p v = None" "Get (m_options p ! idx) v = Inr x"
    for idx x
    using body_stores [OF assms(2) _ that(2,3) folp that(4,5)]
      body_stores [OF s(4) _ _ _ folq, of idx x] that keyp keyq opts
    by simp
  have reach: "fst (parse p0) = fst (parse q0) \<and> visible (snd (parse p0)) = visible (snd (parse q0))"
    if "2 \<le> length (m_argv p0)" "2 \<le> length (m_argv q0)"
       "scan_n n p0 = (Inr (), p)" "scan_n m q0 = (Inr (), ?q)"
    for p0 q0 n m
    using parse_visible [OF that(1,2)] scan scan_n_parseArguments [OF that(3)]
      scan_n_parseArguments [OF that(4)]
    by simp
  from split keyp keyq folp folq whole stored reach show ?thesis by blast
qed

theorem equal_sign_as_two_tokens_witness:
  "fst (parse (equal_sign_parser [''prog'', ''--option=value'', ''-a''])) =
     fst (parse (equal_sign_parser [''prog'', ''--option'', ''value'', ''-a''])) \<and>
   storage (snd (parse (equal_sign_parser [''prog'', ''--option=value'', ''-a'']))) 0
     = Some (StrV ''value'') \<and>
   m_value (m_options (snd (parse (equal_sign_parser [''prog'', ''--option=value'', ''-a'']))) ! 1)
     = Some (StrV ''value'')"
proof -
  let ?a = "equal_sign_parser [''prog'', ''--option=value'', ''-a'']"
  let ?b = "equal_sign_parser [''prog'', ''--option'', ''value'', ''-a'']"
  have h: "1 \<le> m_curr_arg ?a" "m_curr_arg ?a < length (m_argv ?a)"
    "m_argv ?a ! m_curr_arg ?a = ''--option'' @ CHR ''='' # ''value''"
    "CHR ''='' \<notin> set ''--option''"
    by (simp_all add: equal_sign_parser_def clapp_defs)
  have b: "two_tokens ''--option'' ''value'' ?a = ?b"
    by (simp add: two_tokens_def equal_sign_parser_def clapp_defs)
  have e: "storage (snd (parse ?b)) 0 = Some (StrV ''value'')"
    "m_value (m_options (snd (parse ?b)) ! 1) = Some (StrV ''value'')"
    by (simp_all add: equal_sign_parser_def clapp_defs)
  from equal_sign_as_two_tokens [OF h] b
  have "fst (parse ?a) = fst (parse ?b)" "visible (snd (parse ?a)) = visible (snd (parse ?b))"
    by simp_all
  with e show ?thesis by (simp add: visible_def)
qed

subsection \<open>Choice sets and positional tokens\<close>









end
